theory Spec2Isabelle
  imports Main "HOL-Library.Sublist" "HOL-Library.Char_ord" "HOL-Library.List_Lexorder"
    "HOL-Library.Multiset"
begin

section \<open>Zabbix configuration export: a model of backup.py\<close>

text \<open>
  The program fetches configuration objects from a Zabbix server and writes one file per
  object. This theory embeds its functions as HOL functions and proves the properties
  that its description states about them. Strings are lists of bytes (UTF-8). The
  libraries the program calls (the Zabbix client, \<^verbatim>\<open>json\<close>, \<^verbatim>\<open>anymarkup\<close>, \<^verbatim>\<open>yaml\<close>,
  \<^verbatim>\<open>xml.dom.minidom\<close>) are parameters of the model: a record of functions that return a
  value or an exception.
\<close>

subsection \<open>File-name sanitization\<close>

text \<open>
  Both \<^verbatim>\<open>dumps_json\<close> and \<^verbatim>\<open>dump_xml\<close> clean the display name with the same call,
  \<^verbatim>\<open>re.sub(r'[\\/:"*?<>|]+', ' ', name)\<close>. The nine characters of the class are ASCII,
  and no byte of a multi-byte UTF-8 sequence is ASCII, so scanning bytes and scanning
  code points replace the same runs.
  \<open>special\<close> is the character class. \<open>sanitize_name\<close> is the substitution: the scan
  goes left to right; where the class matches, the greedy \<open>+\<close> takes the whole run
  (\<open>dropWhile\<close>) and one space is emitted; any other character is copied.
\<close>

definition special :: "char \<Rightarrow> bool" where
  "special c = (c \<in> set [CHR 0x5C, CHR ''/'', CHR '':'', CHR 0x22, CHR ''*'', CHR ''?'',
                          CHR ''<'', CHR ''>'', CHR ''|''])"

function sanitize_name :: "string \<Rightarrow> string" where
  "sanitize_name [] = []"
| "sanitize_name (c # cs) =
     (if special c then CHR '' '' # sanitize_name (dropWhile special cs)
      else c # sanitize_name cs)"
  by pat_completeness auto
termination
  by (relation "measure length") (auto simp: length_dropWhile_le less_Suc_eq_le)

subsection \<open>Python values and exceptions\<close>

text \<open>
  The values the functions handle: \<^verbatim>\<open>None\<close>, booleans, integers, strings, lists, tuples,
  sets and dicts. A dict (also an \<^verbatim>\<open>OrderedDict\<close>) is the list of its items in iteration
  order; a set is the list of its elements in iteration order. Floating-point numbers
  are left out.
\<close>

datatype pyval =
    PNone
  | PBool bool
  | PInt int
  | PStr string
  | PList "pyval list"
  | PTuple "pyval list"
  | PSet "pyval list"
  | PDict "(pyval \<times> pyval) list"

datatype exn =
    KeyError pyval
  | TypeError
  | IsADirectoryError string
  | NotADirectoryError string
  | LibraryError string
  | Exception string

text \<open>
  Python identifies dict keys and set elements that compare equal: \<^verbatim>\<open>True == 1\<close>, and
  tuples compare element by element. \<open>hkey\<close> maps a hashable value to a representative
  of its class, and \<open>py_eq\<close> is \<^verbatim>\<open>==\<close> on hashable values.
  \<open>dict_set\<close> is the assignment \<^verbatim>\<open>d[k] = v\<close> (an existing key keeps its place and its key
  object), \<open>dict_of\<close> is the constructor \<^verbatim>\<open>dict(pairs)\<close>, \<open>set_of\<close> is \<^verbatim>\<open>set(elements)\<close>,
  and \<open>dict_get\<close> is the lookup.
\<close>

fun hkey :: "pyval \<Rightarrow> pyval" where
  "hkey (PBool b) = PInt (if b then 1 else 0)"
| "hkey (PTuple xs) = PTuple (map hkey xs)"
| "hkey v = v"

definition py_eq :: "pyval \<Rightarrow> pyval \<Rightarrow> bool" where
  "py_eq a b = (hkey a = hkey b)"

fun dict_set :: "(pyval \<times> pyval) list \<Rightarrow> pyval \<Rightarrow> pyval \<Rightarrow> (pyval \<times> pyval) list" where
  "dict_set [] k v = [(k, v)]"
| "dict_set ((k', v') # d) k v =
     (if py_eq k' k then (k', v) # d else (k', v') # dict_set d k v)"

definition dict_of :: "(pyval \<times> pyval) list \<Rightarrow> (pyval \<times> pyval) list" where
  "dict_of ps = foldl (\<lambda>d (k, v). dict_set d k v) [] ps"

fun set_add :: "pyval list \<Rightarrow> pyval \<Rightarrow> pyval list" where
  "set_add [] x = [x]"
| "set_add (y # ys) x = (if py_eq y x then y # ys else y # set_add ys x)"

definition set_of :: "pyval list \<Rightarrow> pyval list" where
  "set_of xs = foldl set_add [] xs"

definition dict_get :: "(pyval \<times> pyval) list \<Rightarrow> pyval \<Rightarrow> pyval option" where
  "dict_get d k = map_option snd (find (\<lambda>(k', v). py_eq k' k) d)"

subsection \<open>Null stripping\<close>

text \<open>
  \<^verbatim>\<open>remove_none\<close>: a list, tuple or set is rebuilt with the same type from its elements
  that are not \<^verbatim>\<open>None\<close>, each stripped in turn; a dict is rebuilt from the items whose
  key and value are both not \<^verbatim>\<open>None\<close>, key and value stripped; anything else is returned
  as it is.
\<close>

fun remove_none :: "pyval \<Rightarrow> pyval" where
  "remove_none (PList xs) = PList (map remove_none (filter (\<lambda>x. x \<noteq> PNone) xs))"
| "remove_none (PTuple xs) = PTuple (map remove_none (filter (\<lambda>x. x \<noteq> PNone) xs))"
| "remove_none (PSet xs) = PSet (set_of (map remove_none (filter (\<lambda>x. x \<noteq> PNone) xs)))"
| "remove_none (PDict d) =
     PDict (dict_of (map (\<lambda>(k, v). (remove_none k, remove_none v))
                         (filter (\<lambda>(k, v). k \<noteq> PNone \<and> v \<noteq> PNone) d)))"
| "remove_none v = v"

subsection \<open>Key ordering\<close>

text \<open>
  \<^verbatim>\<open>order_data\<close> sorts the items of a dict with \<^verbatim>\<open>sorted(data.items())\<close>. The keys of a
  dict are pairwise different, so the comparison of two items is decided by their keys.
  \<open>py_lt\<close> is \<^verbatim>\<open><\<close> on keys: numbers (booleans count as 0 and 1) by value, strings by
  code point (the byte order of UTF-8 is the code-point order), tuples lexicographically;
  \<open>None\<close> stands for the \<^verbatim>\<open>TypeError\<close> of an unsupported comparison.
  \<open>sorted_items\<close> is the stable sort: the result of insertion from the right when every
  two keys compare, \<^verbatim>\<open>TypeError\<close> otherwise. For keys that are \<^verbatim>\<open>None\<close>, numbers or
  strings (all that JSON decoding and \<^verbatim>\<open>anymarkup\<close> produce) this is what Python does:
  its sort compares every item with some other one, so keys of two kinds cannot be
  sorted. For tuple keys of which only some pairs compare, Python's outcome depends on
  the pairs its sort visits, and the model reports \<^verbatim>\<open>TypeError\<close>.
\<close>

fun num_of :: "pyval \<Rightarrow> int option" where
  "num_of (PBool b) = Some (if b then 1 else 0)"
| "num_of (PInt i) = Some i"
| "num_of v = None"

fun py_lt :: "pyval \<Rightarrow> pyval \<Rightarrow> bool option"
  and py_lt_seq :: "pyval list \<Rightarrow> pyval list \<Rightarrow> bool option" where
  "py_lt (PTuple xs) (PTuple ys) = py_lt_seq xs ys"
| "py_lt (PStr s) (PStr t) = Some (s < t)"
| "py_lt a b = (case (num_of a, num_of b) of (Some i, Some j) \<Rightarrow> Some (i < j) | _ \<Rightarrow> None)"
| "py_lt_seq [] [] = Some False"
| "py_lt_seq [] (y # ys) = Some True"
| "py_lt_seq (x # xs) [] = Some False"
| "py_lt_seq (x # xs) (y # ys) = (if py_eq x y then py_lt_seq xs ys else py_lt x y)"

definition comparable :: "pyval list \<Rightarrow> bool" where
  "comparable ks = list_all (\<lambda>a. list_all (\<lambda>b. py_eq a b \<or> py_lt a b \<noteq> None) ks) ks"

fun insort_item :: "pyval \<times> pyval \<Rightarrow> (pyval \<times> pyval) list \<Rightarrow> (pyval \<times> pyval) list" where
  "insort_item x [] = [x]"
| "insort_item x (y # ys) =
     (if py_lt (fst y) (fst x) = Some True then y # insort_item x ys else x # y # ys)"

definition sorted_items :: "(pyval \<times> pyval) list \<Rightarrow> exn + (pyval \<times> pyval) list" where
  "sorted_items d =
     (if comparable (map fst d) then Inr (foldr insort_item d []) else Inl TypeError)"

text \<open>
  \<^verbatim>\<open>order_data\<close>: in a dict, every value is replaced by its ordered version (the loop
  \<^verbatim>\<open>data[key] = order_data(value)\<close>, here \<open>order_values\<close>), then the items are sorted; a
  list is mapped element by element (\<open>order_list\<close>); anything else, tuples and sets
  included, is returned as it is. The first exception ends the traversal.
\<close>

fun order_data :: "pyval \<Rightarrow> exn + pyval"
  and order_list :: "pyval list \<Rightarrow> exn + pyval list"
  and order_values :: "(pyval \<times> pyval) list \<Rightarrow> exn + (pyval \<times> pyval) list" where
  "order_data (PDict d) =
     (case order_values d of
        Inl e \<Rightarrow> Inl e
      | Inr d' \<Rightarrow> (case sorted_items d' of Inl e \<Rightarrow> Inl e | Inr s \<Rightarrow> Inr (PDict s)))"
| "order_data (PList xs) =
     (case order_list xs of Inl e \<Rightarrow> Inl e | Inr ys \<Rightarrow> Inr (PList ys))"
| "order_data v = Inr v"
| "order_list [] = Inr []"
| "order_list (x # xs) =
     (case order_data x of
        Inl e \<Rightarrow> Inl e
      | Inr y \<Rightarrow> (case order_list xs of Inl e \<Rightarrow> Inl e | Inr ys \<Rightarrow> Inr (y # ys)))"
| "order_values [] = Inr []"
| "order_values ((k, v) # d) =
     (case order_data v of
        Inl e \<Rightarrow> Inl e
      | Inr v' \<Rightarrow> (case order_values d of Inl e \<Rightarrow> Inl e | Inr d' \<Rightarrow> Inr ((k, v') # d')))"

subsection \<open>The file system and the libraries\<close>

text \<open>
  The part of the file system the program touches: the directories and the regular files
  with their contents, by path relative to the working directory (\<^verbatim>\<open>os.path.abspath\<close>
  prefixes every path with the same directory). A folder is one directory name, as in
  every call in \<^verbatim>\<open>main\<close>. \<open>ensure_folder\<close> is \<^verbatim>\<open>if not os.path.exists(folder):
  os.makedirs(folder)\<close>. \<open>write_file\<close> is \<^verbatim>\<open>open(filename, mode="w")\<close> followed by \<^verbatim>\<open>write\<close>:
  it replaces the content of the file, and fails when the folder's name belongs to a
  regular file or the file's name to a directory. Failures of the operating system
  itself (permissions, full disk, name length) are outside the model. Every function
  returns its result, a value or the exception raised, with the file system it leaves.
\<close>

record fs =
  dirs :: "string set"
  files :: "string \<rightharpoonup> string"

definition path_exists :: "fs \<Rightarrow> string \<Rightarrow> bool" where
  "path_exists s p = (p \<in> dirs s \<or> p \<in> dom (files s))"

definition makedirs :: "string \<Rightarrow> fs \<Rightarrow> fs" where
  "makedirs p s = s\<lparr>dirs := insert p (dirs s)\<rparr>"

definition ensure_folder :: "string \<Rightarrow> fs \<Rightarrow> fs" where
  "ensure_folder folder s = (if \<not> path_exists s folder then makedirs folder s else s)"

definition write_file :: "string \<Rightarrow> string \<Rightarrow> string \<Rightarrow> fs \<Rightarrow> (exn + unit) \<times> fs" where
  "write_file folder filename txt s =
     (if folder \<notin> dirs s then (Inl (NotADirectoryError filename), s)
      else if filename \<in> dirs s then (Inl (IsADirectoryError filename), s)
      else (Inr (), s\<lparr>files := (files s)(filename \<mapsto> txt)\<rparr>))"

definition file_path :: "string \<Rightarrow> string \<Rightarrow> string \<Rightarrow> string" where
  "file_path folder name ext = folder @ ''/'' @ name @ ''.'' @ ext"

text \<open>
  The library calls: \<^verbatim>\<open>json.dumps(item, indent=4)\<close>, \<^verbatim>\<open>anymarkup.parse(txt)\<close>,
  \<^verbatim>\<open>yaml.dump(raw, default_flow_style=False, width=10000)\<close> with the representer for
  \<^verbatim>\<open>OrderedDict\<close>, and \<^verbatim>\<open>xml.dom.minidom.parseString(txt).toprettyxml(indent='  ',
  encoding='UTF-8').decode()\<close>.
\<close>

record libs =
  json_dumps :: "pyval \<Rightarrow> exn + string"
  anymarkup_parse :: "string \<Rightarrow> exn + pyval"
  yaml_dump :: "pyval \<Rightarrow> exn + string"
  prettyxml :: "string \<Rightarrow> exn + string"

subsection \<open>The structured-data path\<close>

definition convert_to_object_without_none :: "libs \<Rightarrow> string \<Rightarrow> exn + string" where
  "convert_to_object_without_none L txt =
     (case anymarkup_parse L txt of
        Inl e \<Rightarrow> Inl e
      | Inr raw \<Rightarrow> yaml_dump L (remove_none raw))"

text \<open>
  \<open>getitem\<close> is \<^verbatim>\<open>item[key]\<close> for a string \<open>key\<close>: a dict without the key raises
  \<^verbatim>\<open>KeyError\<close>, and a value of any other type raises \<^verbatim>\<open>TypeError\<close>. \<open>re_sub_name\<close> is the
  sanitizing call, which raises \<^verbatim>\<open>TypeError\<close> for a name that is not a string.
  \<open>write_item\<close> is the body of the loop of \<^verbatim>\<open>dumps_json\<close> and \<open>write_items\<close> the loop;
  \<open>dumps_json\<close> takes the list \<open>data\<close>, for which \<^verbatim>\<open>order_data(data)\<close> is \<open>order_list\<close>.
\<close>

fun getitem :: "pyval \<Rightarrow> string \<Rightarrow> exn + pyval" where
  "getitem (PDict d) key =
     (case dict_get d (PStr key) of None \<Rightarrow> Inl (KeyError (PStr key)) | Some v \<Rightarrow> Inr v)"
| "getitem v key = Inl TypeError"

fun re_sub_name :: "pyval \<Rightarrow> exn + string" where
  "re_sub_name (PStr s) = Inr (sanitize_name s)"
| "re_sub_name v = Inl TypeError"

definition write_item ::
  "libs \<Rightarrow> string \<Rightarrow> string \<Rightarrow> bool \<Rightarrow> pyval \<Rightarrow> fs \<Rightarrow> (exn + unit) \<times> fs" where
  "write_item L folder key save_yaml item s =
     (case json_dumps L item of
        Inl e \<Rightarrow> (Inl e, s)
      | Inr txt \<Rightarrow>
     (case getitem item key of
        Inl e \<Rightarrow> (Inl e, s)
      | Inr name \<Rightarrow>
     (case re_sub_name name of
        Inl e \<Rightarrow> (Inl e, s)
      | Inr name' \<Rightarrow>
     (let filename = file_path folder name' (if save_yaml then ''yaml'' else ''json'') in
      case (if save_yaml then convert_to_object_without_none L txt else Inr txt) of
        Inl e \<Rightarrow> (Inl e, s)
      | Inr txt' \<Rightarrow> write_file folder filename txt' s))))"

fun write_items ::
  "libs \<Rightarrow> string \<Rightarrow> string \<Rightarrow> bool \<Rightarrow> pyval list \<Rightarrow> fs \<Rightarrow> (exn + unit) \<times> fs" where
  "write_items L folder key save_yaml [] s = (Inr (), s)"
| "write_items L folder key save_yaml (item # items) s =
     (case write_item L folder key save_yaml item s of
        (Inl e, s') \<Rightarrow> (Inl e, s')
      | (Inr u, s') \<Rightarrow> write_items L folder key save_yaml items s')"

definition dumps_json ::
  "libs \<Rightarrow> string \<Rightarrow> pyval list \<Rightarrow> string \<Rightarrow> bool \<Rightarrow> fs \<Rightarrow> (exn + unit) \<times> fs" where
  "dumps_json L folder data key save_yaml s =
     (let s1 = ensure_folder folder s in
      case order_list data of
        Inl e \<Rightarrow> (Inl e, s1)
      | Inr data' \<Rightarrow> write_items L folder key save_yaml data' s1)"

subsection \<open>The markup path\<close>

text \<open>
  \<open>sub_date\<close> is \<^verbatim>\<open>re.sub(r'<date>.*<\/date>', '', txt)\<close>. \<open>match_date s\<close> is the length of
  the match of the pattern at the start of \<open>s\<close>, if there is one: after \<^verbatim>\<open><date>\<close>
  (\<open>open_tag\<close>) the greedy \<^verbatim>\<open>.*\<close> first takes every character up to the next line feed
  (\<^verbatim>\<open>.\<close> matches anything else), and \<open>backtrack\<close> gives characters back one at a time
  until \<^verbatim>\<open></date>\<close> (\<open>close_tag\<close>) follows. The substitution scans left to right; a match is dropped and the scan goes on
  behind it. \<open>search_date\<close> tells whether the pattern matches anywhere
  (\<^verbatim>\<open>re.search\<close>). \<open>replace_quot\<close> is \<^verbatim>\<open>txt.replace('&quot;', '"')\<close>.
\<close>

definition newline :: char where
  "newline = CHR 0x0A"

definition open_tag :: string where
  "open_tag = ''<date>''"

definition close_tag :: string where
  "close_tag = ''</date>''"

fun backtrack :: "string \<Rightarrow> nat \<Rightarrow> nat option" where
  "backtrack s 0 = (if prefix close_tag s then Some 0 else None)"
| "backtrack s (Suc j) =
     (if prefix close_tag (drop (Suc j) s) then Some (Suc j) else backtrack s j)"

definition match_date :: "string \<Rightarrow> nat option" where
  "match_date s =
     (if prefix open_tag s then
        (let rest = drop (length open_tag) s;
             n = length (takeWhile (\<lambda>c. c \<noteq> newline) rest) in
         case backtrack rest n of
           None \<Rightarrow> None
         | Some j \<Rightarrow> Some (length open_tag + j + length close_tag))
      else None)"

function sub_date :: "string \<Rightarrow> string" where
  "sub_date [] = []"
| "sub_date (c # cs) =
     (case match_date (c # cs) of
        Some n \<Rightarrow> sub_date (drop n (c # cs))
      | None \<Rightarrow> c # sub_date cs)"
  by pat_completeness auto
termination
  by (relation "measure length")
    (auto simp: match_date_def open_tag_def Let_def split: if_splits option.splits)

definition search_date :: "string \<Rightarrow> bool" where
  "search_date s = list_ex (\<lambda>i. match_date (drop i s) \<noteq> None) [0..<length s]"

function replace_quot :: "string \<Rightarrow> string" where
  "replace_quot [] = []"
| "replace_quot (c # cs) =
     (if prefix ''&quot;'' (c # cs) then CHR 0x22 # replace_quot (drop 6 (c # cs))
      else c # replace_quot cs)"
  by pat_completeness auto
termination
  by (relation "measure length") auto

definition dump_xml ::
  "libs \<Rightarrow> string \<Rightarrow> string \<Rightarrow> string \<Rightarrow> bool \<Rightarrow> fs \<Rightarrow> (exn + unit) \<times> fs" where
  "dump_xml L folder txt name save_yaml s =
     (let s1 = ensure_folder folder s;
          filename = file_path folder (sanitize_name name) (if save_yaml then ''yaml'' else ''xml'');
          txt1 = sub_date txt in
      case prettyxml L txt1 of
        Inl e \<Rightarrow> (Inl e, s1)
      | Inr txt2 \<Rightarrow>
     (case (if save_yaml then convert_to_object_without_none L (replace_quot txt2)
            else Inr (replace_quot txt2)) of
        Inl e \<Rightarrow> (Inl e, s1)
      | Inr txt3 \<Rightarrow> write_file folder filename txt3 s1))"

subsection \<open>The connection resolver\<close>

text \<open>
  \<^verbatim>\<open>get_zabbix_connection\<close> tries the two call conventions of the client class. The
  client is a parameter: its constructor (without or with the credentials) and \<^verbatim>\<open>login\<close>
  talk to the server, so they take and return the state \<open>'w\<close> of the world outside the
  program; the assignment \<^verbatim>\<open>session.verify = False\<close> does not. Each returns the handle
  or an exception of class \<^verbatim>\<open>Exception\<close>, the only ones the two \<^verbatim>\<open>except\<close> clauses catch.
  The log is the list of the calls made to \<^verbatim>\<open>logging\<close> so far. \<open>try_pyzabbix\<close> and
  \<open>try_py_zabbix\<close> are the bodies of the two \<^verbatim>\<open>try\<close> blocks.
\<close>

datatype log_entry = Debug string | LoggedException exn

record ('h, 'w) zabbix_lib =
  ZabbixAPI :: "string \<Rightarrow> (string \<times> string) option \<Rightarrow> 'w \<Rightarrow> (exn + 'h) \<times> 'w"
  set_verify :: "'h \<Rightarrow> bool \<Rightarrow> exn + 'h"
  login :: "'h \<Rightarrow> string \<Rightarrow> string \<Rightarrow> 'w \<Rightarrow> (exn + 'h) \<times> 'w"

definition try_pyzabbix ::
  "('h, 'w) zabbix_lib \<Rightarrow> string \<Rightarrow> string \<Rightarrow> string \<Rightarrow> 'w \<Rightarrow> (exn + 'h) \<times> 'w" where
  "try_pyzabbix Z zbx_url zbx_user zbx_password w =
     (case ZabbixAPI Z zbx_url None w of
        (Inl e, w1) \<Rightarrow> (Inl e, w1)
      | (Inr h, w1) \<Rightarrow>
     (case set_verify Z h False of
        Inl e \<Rightarrow> (Inl e, w1)
      | Inr h' \<Rightarrow> login Z h' zbx_user zbx_password w1))"

definition try_py_zabbix ::
  "('h, 'w) zabbix_lib \<Rightarrow> string \<Rightarrow> string \<Rightarrow> string \<Rightarrow> 'w \<Rightarrow> (exn + 'h) \<times> 'w" where
  "try_py_zabbix Z zbx_url zbx_user zbx_password w =
     (case ZabbixAPI Z zbx_url (Some (zbx_user, zbx_password)) w of
        (Inl e, w1) \<Rightarrow> (Inl e, w1)
      | (Inr h, w1) \<Rightarrow> (set_verify Z h False, w1))"

definition get_zabbix_connection ::
  "('h, 'w) zabbix_lib \<Rightarrow> string \<Rightarrow> string \<Rightarrow> string \<Rightarrow> log_entry list \<times> 'w \<Rightarrow>
   (exn + 'h) \<times> log_entry list \<times> 'w" where
  "get_zabbix_connection Z zbx_url zbx_user zbx_password st =
     (let (log, w) = st;
          log1 = log @ [Debug ''Try connect to Zabbix by pyzabbix...''] in
      case try_pyzabbix Z zbx_url zbx_user zbx_password w of
        (Inr h, w1) \<Rightarrow> (Inr h, log1, w1)
      | (Inl e1, w1) \<Rightarrow>
     (let log2 = log1 @ [LoggedException e1, Debug ''Try connect to Zabbix by py-zabbix...''] in
      case try_py_zabbix Z zbx_url zbx_user zbx_password w1 of
        (Inr h, w2) \<Rightarrow> (Inr h, log2, w2)
      | (Inl e2, w2) \<Rightarrow>
          (Inl (Exception ''Some error in pyzabbix or py_zabbix module, see logs''),
           log2 @ [LoggedException e2], w2)))"

subsection \<open>Notions used in the statements\<close>

text \<open>
  \<open>py_type\<close> is the name of a value's type and \<open>container\<close> says that it is one of the
  four \<^verbatim>\<open>remove_none\<close> rebuilds. \<open>elements\<close> and \<open>entries\<close> read the contents of a
  sequence or set and of a mapping. \<open>no_none_in v\<close> holds when no sequence, set or
  mapping inside \<open>v\<close>, at any depth, has \<^verbatim>\<open>None\<close> as an element, a key or a value.
  \<open>distinct_keys v\<close> holds when the keys of every mapping and the elements of every set
  inside \<open>v\<close> are pairwise different, as they are in every Python object.
  \<open>get_path v [k1, ..., kn]\<close> is \<^verbatim>\<open>v[k1]...[kn]\<close> through nested mappings, \<open>None\<close> when a
  key is absent.
\<close>

fun py_type :: "pyval \<Rightarrow> string" where
  "py_type PNone = ''NoneType''"
| "py_type (PBool b) = ''bool''"
| "py_type (PInt i) = ''int''"
| "py_type (PStr s) = ''str''"
| "py_type (PList xs) = ''list''"
| "py_type (PTuple xs) = ''tuple''"
| "py_type (PSet xs) = ''set''"
| "py_type (PDict d) = ''dict''"

definition container :: "pyval \<Rightarrow> bool" where
  "container v = (py_type v \<in> set [''list'', ''tuple'', ''set'', ''dict''])"

fun elements :: "pyval \<Rightarrow> pyval list" where
  "elements (PList xs) = xs"
| "elements (PTuple xs) = xs"
| "elements (PSet xs) = xs"
| "elements v = []"

fun entries :: "pyval \<Rightarrow> (pyval \<times> pyval) list" where
  "entries (PDict d) = d"
| "entries v = []"

fun no_none_in :: "pyval \<Rightarrow> bool" where
  "no_none_in (PList xs) = list_all (\<lambda>x. x \<noteq> PNone \<and> no_none_in x) xs"
| "no_none_in (PTuple xs) = list_all (\<lambda>x. x \<noteq> PNone \<and> no_none_in x) xs"
| "no_none_in (PSet xs) = list_all (\<lambda>x. x \<noteq> PNone \<and> no_none_in x) xs"
| "no_none_in (PDict d) =
     list_all (\<lambda>(k, v). k \<noteq> PNone \<and> v \<noteq> PNone \<and> no_none_in k \<and> no_none_in v) d"
| "no_none_in v = True"

fun distinct_keys :: "pyval \<Rightarrow> bool" where
  "distinct_keys (PList xs) = list_all distinct_keys xs"
| "distinct_keys (PTuple xs) = list_all distinct_keys xs"
| "distinct_keys (PSet xs) = (distinct (map hkey xs) \<and> list_all distinct_keys xs)"
| "distinct_keys (PDict d) =
     (distinct (map (\<lambda>(k, v). hkey k) d) \<and>
      list_all (\<lambda>(k, v). distinct_keys k \<and> distinct_keys v) d)"
| "distinct_keys v = True"

fun get_path :: "pyval \<Rightarrow> pyval list \<Rightarrow> pyval option" where
  "get_path v [] = Some v"
| "get_path (PDict d) (k # ks) =
     (case dict_get d k of None \<Rightarrow> None | Some v \<Rightarrow> get_path v ks)"
| "get_path v (k # ks) = None"

text \<open>
  \<open>str_keys v\<close> holds for decoded JSON: in every mapping that \<^verbatim>\<open>order_data\<close> reaches the
  keys are strings, pairwise different. \<open>keys_sorted v\<close> holds when in every such mapping
  the keys stand in strictly increasing order of their strings. \<open>same_data a b\<close> holds
  when \<open>b\<close> is \<open>a\<close> up to the order of the items of its mappings: lists agree position by
  position, a mapping has as many items as its counterpart and every key of it is bound
  there to the same data, anything else is equal. \<open>key_of\<close> is the string of an item's
  key, and \<open>ordered_item\<close> relates an item to the item with its value ordered.
\<close>

fun str_of :: "pyval \<Rightarrow> string" where
  "str_of (PStr s) = s"
| "str_of v = []"

fun is_str :: "pyval \<Rightarrow> bool" where
  "is_str (PStr s) = True"
| "is_str v = False"

fun str_keys :: "pyval \<Rightarrow> bool" where
  "str_keys (PDict d) =
     (distinct (map fst d) \<and> list_all (\<lambda>(k, v). is_str k \<and> str_keys v) d)"
| "str_keys (PList xs) = list_all str_keys xs"
| "str_keys v = True"

fun keys_sorted :: "pyval \<Rightarrow> bool" where
  "keys_sorted (PDict d) =
     (sorted_wrt (<) (map (\<lambda>(k, v). str_of k) d) \<and> list_all (\<lambda>(k, v). keys_sorted v) d)"
| "keys_sorted (PList xs) = list_all keys_sorted xs"
| "keys_sorted v = True"

fun same_data :: "pyval \<Rightarrow> pyval \<Rightarrow> bool" where
  "same_data (PList xs) (PList ys) = list_all2 same_data xs ys"
| "same_data (PDict d) (PDict d') =
     (length d = length d' \<and>
      list_all (\<lambda>(k, v). case map_of d' k of None \<Rightarrow> False | Some v' \<Rightarrow> same_data v v') d)"
| "same_data a b = (a = b)"

abbreviation key_of :: "pyval \<times> pyval \<Rightarrow> string" where
  "key_of \<equiv> (\<lambda>(k, v). str_of k)"

abbreviation ordered_item :: "pyval \<times> pyval \<Rightarrow> pyval \<times> pyval \<Rightarrow> bool" where
  "ordered_item \<equiv> (\<lambda>(k, v) (k', v'). k = k' \<and> same_data v v' \<and> keys_sorted v' \<and> str_keys v')"

text \<open>
  \<open>export\<close> is the loop of the function \<^verbatim>\<open>export\<close> inside \<^verbatim>\<open>main\<close> over the items the server
  returned, each given by its display name and the document exported for it: one call
  of \<^verbatim>\<open>dump_xml\<close> per item, into the folder named after the category, stopping at the
  first exception. \<open>extension\<close> is the file extension either path chooses.
  \<open>sample_libs\<close> is a small instance of the libraries for the examples: the serializer
  tells two items apart by their \<^verbatim>\<open>id\<close>, and the re-indenter returns its input.
\<close>

fun export ::
  "libs \<Rightarrow> string \<Rightarrow> (string \<times> string) list \<Rightarrow> bool \<Rightarrow> fs \<Rightarrow> (exn + unit) \<times> fs" where
  "export L type [] save_yaml s = (Inr (), s)"
| "export L type ((name, txt) # items) save_yaml s =
     (case dump_xml L type txt name save_yaml s of
        (Inl e, s') \<Rightarrow> (Inl e, s')
      | (Inr u, s') \<Rightarrow> export L type items save_yaml s')"

definition extension :: "bool \<Rightarrow> string \<Rightarrow> string" where
  "extension save_yaml native = (if save_yaml then ''yaml'' else native)"

definition sample_libs :: libs where
  "sample_libs =
     \<lparr>json_dumps = \<lambda>v. (case getitem v ''id'' of Inr (PInt i) \<Rightarrow> Inr (if i = 1 then ''one'' else ''two'')
                               | _ \<Rightarrow> Inr ''none''),
      anymarkup_parse = \<lambda>t. Inr (PStr t),
      yaml_dump = \<lambda>v. Inr (str_of v),
      prettyxml = Inr\<rparr>"

text \<open>
  \<open>closes w\<close> holds when \<^verbatim>\<open></date>\<close> occurs on the first line of \<open>w\<close>.
\<close>

definition closes :: "string \<Rightarrow> bool" where
  "closes w = (\<exists>a b. w = a @ close_tag @ b \<and> newline \<notin> set a)"

section \<open>Properties\<close>

subsection \<open>File-name sanitization\<close>

lemma space_not_special: "\<not> special (CHR '' '')"
  by (simp add: special_def)

lemma sanitize_name_clean: "c \<in> set (sanitize_name s) \<Longrightarrow> \<not> special c"
  by (induction s rule: sanitize_name.induct) (auto simp: space_not_special split: if_splits)

lemma sanitize_name_id: "\<not> list_ex special s \<Longrightarrow> sanitize_name s = s"
  by (induction s) auto

lemma dropWhile_keeps_last:
  "xs \<noteq> [] \<Longrightarrow> \<not> P (last xs) \<Longrightarrow> dropWhile P xs \<noteq> [] \<and> last (dropWhile P xs) = last xs"
  by (induction xs) (auto split: if_splits)

lemma dropWhile_append_last:
  "xs \<noteq> [] \<Longrightarrow> \<not> P (last xs) \<Longrightarrow> dropWhile P (xs @ ys) = dropWhile P xs @ ys"
  by (induction xs) (auto split: if_splits)

lemma sanitize_name_append:
  "pre = [] \<or> \<not> special (last pre) \<Longrightarrow>
   sanitize_name (pre @ s) = sanitize_name pre @ sanitize_name s"
proof (induction pre rule: sanitize_name.induct)
  case 1
  show ?case by simp
next
  case (2 c cs)
  show ?case
  proof (cases "special c")
    case True
    with "2.prems" have ne: "cs \<noteq> []" and nl: "\<not> special (last cs)"
      by (auto split: if_splits)
    have "dropWhile special cs \<noteq> [] \<and> last (dropWhile special cs) = last cs"
      using ne nl by (rule dropWhile_keeps_last [where P = special])
    moreover have "dropWhile special (cs @ s) = dropWhile special cs @ s"
      using ne nl by (rule dropWhile_append_last [where P = special])
    ultimately show ?thesis using True nl "2.IH"(1) by simp
  next
    case False
    with "2.prems" "2.IH"(2) show ?thesis by (cases cs) auto
  qed
qed

lemma dropWhile_all: "list_all P xs \<Longrightarrow> ys = [] \<or> \<not> P (hd ys) \<Longrightarrow> dropWhile P (xs @ ys) = ys"
  by (induction xs) (auto, cases ys, auto)

lemma sanitize_name_run:
  assumes "list_all special run" "run \<noteq> []" "post = [] \<or> \<not> special (hd post)"
  shows "sanitize_name (run @ post) = '' '' @ sanitize_name post"
proof -
  from assms obtain c cs where r: "run = c # cs" by (cases run) auto
  with assms have "special c" "list_all special cs" by auto
  then show ?thesis using r dropWhile_all [of special cs post] assms(3) by simp
qed

text \<open>
  C1 (as amended). The sanitized name contains none of the characters
  \<^verbatim>\<open>\ / : " * ? < > |\<close>; a maximal run of them (no such character right before or right
  after it) becomes a single space while the text before and after is sanitized on its
  own; a name without such characters is unchanged. Runs separated by any other
  character, a space included, are replaced separately: \<^verbatim>\<open>Host: "A"\<close> becomes \<^verbatim>\<open>Host\<close>,
  three spaces, \<^verbatim>\<open>A\<close>, one space.
\<close>

theorem sanitize_name_collapses_runs:
  "(\<forall>c \<in> set (sanitize_name name). \<not> special c) \<and>
   (list_all special run \<and> run \<noteq> [] \<and> (pre = [] \<or> \<not> special (last pre)) \<and>
    (post = [] \<or> \<not> special (hd post)) \<longrightarrow>
      sanitize_name (pre @ run @ post) = sanitize_name pre @ '' '' @ sanitize_name post) \<and>
   (\<not> list_ex special name \<longrightarrow> sanitize_name name = name) \<and>
   sanitize_name ''Host: \"A\"'' = ''Host   A ''"
proof (intro conjI ballI impI)
  fix c assume "c \<in> set (sanitize_name name)"
  then show "\<not> special c" by (rule sanitize_name_clean)
next
  assume a: "list_all special run \<and> run \<noteq> [] \<and> (pre = [] \<or> \<not> special (last pre)) \<and>
    (post = [] \<or> \<not> special (hd post))"
  then have "sanitize_name (pre @ run @ post) = sanitize_name pre @ sanitize_name (run @ post)"
    by (simp add: sanitize_name_append)
  also have "sanitize_name (run @ post) = '' '' @ sanitize_name post"
    using a by (simp add: sanitize_name_run)
  finally show "sanitize_name (pre @ run @ post) = sanitize_name pre @ '' '' @ sanitize_name post" .
next
  assume "\<not> list_ex special name"
  then show "sanitize_name name = name" by (rule sanitize_name_id)
next
  show "sanitize_name ''Host: \"A\"'' = ''Host   A ''"
    by (simp add: special_def)
qed

text \<open>
  C1 as stated fails on its own example: \<^verbatim>\<open>Host: "A"\<close> does not sanitize to \<^verbatim>\<open>Host A\<close>.
\<close>

theorem host_example_counterexample: "sanitize_name ''Host: \"A\"'' \<noteq> ''Host A''"
  by (simp add: special_def)

text \<open>A run of two special characters between \<^verbatim>\<open>Host\<close> and \<^verbatim>\<open>A\<close>.\<close>

theorem sanitize_name_collapses_runs_witness:
  "list_all (\<lambda>c. \<not> special c) (sanitize_name ''a:b'') \<and>
   sanitize_name (''Host'' @ '':/'' @ ''A'') = ''Host A'' \<and> sanitize_name ''abc'' = ''abc''"
  using sanitize_name_collapses_runs [of "''a:b''" "'':/''" "''Host''" "''A''"]
  by (simp add: special_def)

subsection \<open>Null stripping\<close>

lemma remove_none_eq_None [simp]: "remove_none x = PNone \<longleftrightarrow> x = PNone"
  by (cases x) auto

lemma dict_set_subset:
  "(a, b) \<in> set (dict_set d k v) \<Longrightarrow> (a, b) \<in> set d \<or> a = k \<and> b = v \<or> (a \<in> fst ` set d \<and> b = v)"
  by (induction d k v rule: dict_set.induct) (auto split: if_splits)

lemma dict_of_aux:
  "(a, b) \<in> set (foldl (\<lambda>d (k, v). dict_set d k v) acc ps) \<Longrightarrow>
   (a \<in> fst ` set acc \<or> a \<in> fst ` set ps) \<and> (b \<in> snd ` set acc \<or> b \<in> snd ` set ps)"
proof (induction ps arbitrary: acc)
  case Nil
  then show ?case by force
next
  case (Cons p ps)
  obtain k v where p: "p = (k, v)" by (cases p)
  from Cons.prems have "(a, b) \<in> set (foldl (\<lambda>d (k, v). dict_set d k v) (dict_set acc k v) ps)"
    by (simp add: p)
  from Cons.IH [OF this] show ?case
    using dict_set_subset [of _ _ acc k v] by (fastforce simp: p image_iff)
qed

lemma dict_of_members:
  "(a, b) \<in> set (dict_of ps) \<Longrightarrow> a \<in> fst ` set ps \<and> b \<in> snd ` set ps"
  using dict_of_aux [of a b "[]" ps] by (simp add: dict_of_def)

lemma set_add_subset: "set (set_add ys x) \<subseteq> insert x (set ys)"
  by (induction ys x rule: set_add.induct) auto

lemma set_of_aux: "set (foldl set_add acc xs) \<subseteq> set acc \<union> set xs"
proof (induction xs arbitrary: acc)
  case Nil
  then show ?case by simp
next
  case (Cons x xs)
  show ?case using Cons.IH [of "set_add acc x"] set_add_subset [of acc x] by auto
qed

lemma set_of_subset: "set (set_of xs) \<subseteq> set xs"
  using set_of_aux [of "[]" xs] by (simp add: set_of_def)

lemma no_none_in_remove_none: "no_none_in (remove_none v)"
proof (induction v rule: remove_none.induct)
  case (1 xs)
  then show ?case by (auto simp: list_all_iff)
next
  case (2 xs)
  then show ?case by (auto simp: list_all_iff)
next
  case (3 xs)
  show ?case
  proof (clarsimp simp: list_all_iff)
    fix x assume "x \<in> set (set_of (map remove_none (filter (\<lambda>x. x \<noteq> PNone) xs)))"
    then have "x \<in> set (map remove_none (filter (\<lambda>x. x \<noteq> PNone) xs))"
      using set_of_subset by blast
    then show "x \<noteq> PNone \<and> no_none_in x" using 3 by auto
  qed
next
  case (4 d)
  show ?case
  proof (clarsimp simp: list_all_iff)
    fix a b assume "(a, b) \<in> set (dict_of (map (\<lambda>(k, v). (remove_none k, remove_none v))
                         (filter (\<lambda>(k, v). k \<noteq> PNone \<and> v \<noteq> PNone) d)))"
    from dict_of_members [OF this]
    show "a \<noteq> PNone \<and> b \<noteq> PNone \<and> no_none_in a \<and> no_none_in b"
      using 4 by (auto simp: image_iff)
  qed
qed simp_all


lemma dict_set_fresh:
  "hkey k \<notin> (\<lambda>(k, v). hkey k) ` set d \<Longrightarrow> dict_set d k v = d @ [(k, v)]"
  by (induction d k v rule: dict_set.induct) (auto simp: py_eq_def)

lemma dict_of_distinct_aux:
  "distinct (map (\<lambda>(k, v). hkey k) (acc @ ps)) \<Longrightarrow>
   foldl (\<lambda>d (k, v). dict_set d k v) acc ps = acc @ ps"
proof (induction ps arbitrary: acc)
  case Nil
  then show ?case by simp
next
  case (Cons p ps)
  obtain k v where p: "p = (k, v)" by (cases p)
  from Cons.prems have fresh: "hkey k \<notin> (\<lambda>(k, v). hkey k) ` set acc"
    by (auto simp: p)
  have "distinct (map (\<lambda>(k, v). hkey k) ((acc @ [p]) @ ps))"
    using Cons.prems by simp
  from Cons.IH [OF this] show ?case
    using dict_set_fresh [OF fresh] by (simp add: p)
qed

lemma dict_of_distinct: "distinct (map (\<lambda>(k, v). hkey k) ps) \<Longrightarrow> dict_of ps = ps"
  using dict_of_distinct_aux [of "[]" ps] by (simp add: dict_of_def)

lemma set_add_fresh: "hkey x \<notin> hkey ` set ys \<Longrightarrow> set_add ys x = ys @ [x]"
  by (induction ys x rule: set_add.induct) (auto simp: py_eq_def)

lemma set_of_distinct_aux:
  "distinct (map hkey (acc @ xs)) \<Longrightarrow> foldl set_add acc xs = acc @ xs"
proof (induction xs arbitrary: acc)
  case Nil
  then show ?case by simp
next
  case (Cons x xs)
  from Cons.prems have fresh: "hkey x \<notin> hkey ` set acc" by auto
  have "distinct (map hkey ((acc @ [x]) @ xs))" using Cons.prems by simp
  from Cons.IH [OF this] show ?case using set_add_fresh [OF fresh] by simp
qed

lemma set_of_distinct: "distinct (map hkey xs) \<Longrightarrow> set_of xs = xs"
  using set_of_distinct_aux [of "[]" xs] by (simp add: set_of_def)

lemma filter_not_None_id:
  "list_all (\<lambda>x. x \<noteq> PNone \<and> no_none_in x) xs \<Longrightarrow> filter (\<lambda>x. x \<noteq> PNone) xs = xs"
  by (induction xs) auto

lemma filter_items_id:
  "list_all (\<lambda>(k, v). k \<noteq> PNone \<and> v \<noteq> PNone \<and> no_none_in k \<and> no_none_in v) d \<Longrightarrow>
   filter (\<lambda>(k, v). k \<noteq> PNone \<and> v \<noteq> PNone) d = d"
  by (induction d) auto

lemma remove_none_id: "distinct_keys v \<Longrightarrow> no_none_in v \<Longrightarrow> remove_none v = v"
proof (induction v rule: remove_none.induct)
  case (1 xs)
  then have f: "filter (\<lambda>x. x \<noteq> PNone) xs = xs" by (simp add: filter_not_None_id)
  have "map remove_none xs = xs"
    using 1 f by (intro map_idI) (auto simp: list_all_iff)
  then show ?case by (simp add: f)
next
  case (2 xs)
  then have f: "filter (\<lambda>x. x \<noteq> PNone) xs = xs" by (simp add: filter_not_None_id)
  have "map remove_none xs = xs"
    using 2 f by (intro map_idI) (auto simp: list_all_iff)
  then show ?case by (simp add: f)
next
  case (3 xs)
  then have f: "filter (\<lambda>x. x \<noteq> PNone) xs = xs" by (simp add: filter_not_None_id)
  have "map remove_none xs = xs"
    using 3 f by (intro map_idI) (auto simp: list_all_iff)
  then show ?case using "3.prems" by (simp add: f set_of_distinct)
next
  case (4 d)
  then have f: "filter (\<lambda>(k, v). k \<noteq> PNone \<and> v \<noteq> PNone) d = d" by (simp add: filter_items_id)
  have "map (\<lambda>(k, v). (remove_none k, remove_none v)) d = d"
  proof (intro map_idI)
    fix x assume x: "x \<in> set d"
    obtain k v where kv: "x = (k, v)" by (cases x)
    from x kv "4.prems" have dk: "distinct_keys k" and dv: "distinct_keys v"
      and nk: "no_none_in k" and nv: "no_none_in v"
      by (auto simp: list_all_iff)
    from x f have m: "x \<in> set (filter (\<lambda>(k, v). k \<noteq> PNone \<and> v \<noteq> PNone) d)"
      by simp
    have e: "(k, v) = x" by (simp add: kv)
    have "remove_none k = k" by (rule "4.IH"(1) [OF m e dk nk])
    moreover have "remove_none v = v" by (rule "4.IH"(2) [OF m e dv nv])
    ultimately have "remove_none k = k \<and> remove_none v = v" by simp
    then show "(case x of (k, v) \<Rightarrow> (remove_none k, remove_none v)) = x"
      by (simp add: kv)
  qed
  then show ?case using "4.prems" by (simp add: f dict_of_distinct)
qed simp_all

lemma py_type_remove_none: "py_type (remove_none v) = py_type v"
  by (cases v) simp_all

lemma remove_none_scalar: "\<not> container v \<Longrightarrow> remove_none v = v"
  by (cases v) (simp_all add: container_def)


lemma dict_get_Nil [simp]: "dict_get [] k = None"
  by (simp add: dict_get_def)

lemma dict_get_Cons [simp]:
  "dict_get ((k', v) # d) k = (if py_eq k' k then Some v else dict_get d k)"
  by (simp add: dict_get_def)

lemma dict_get_append:
  "dict_get (d @ d') k = (case dict_get d k of None \<Rightarrow> dict_get d' k | Some v \<Rightarrow> Some v)"
  by (induction d) auto

lemma dict_get_dict_set:
  "dict_get (dict_set d k v) k' = (if py_eq k k' then Some v else dict_get d k')"
  by (induction d k v rule: dict_set.induct) (auto simp: py_eq_def)

lemma dict_of_snoc: "dict_of (ps @ [(k, v)]) = dict_set (dict_of ps) k v"
  by (simp add: dict_of_def)

lemma dict_get_dict_of: "dict_get (dict_of ps) k = dict_get (rev ps) k"
proof (induction ps rule: rev_induct)
  case Nil
  show ?case by (simp add: dict_of_def)
next
  case (snoc p ps)
  obtain a b where p: "p = (a, b)" by (cases p)
  show ?case using snoc by (simp add: p dict_of_snoc dict_get_dict_set)
qed

lemma dict_get_SomeD: "dict_get d k = Some v \<Longrightarrow> \<exists>k'. (k', v) \<in> set d \<and> py_eq k' k"
  by (induction d) (auto split: if_splits)

lemma dict_get_None_iff: "dict_get d k = None \<longleftrightarrow> (\<forall>(k', v) \<in> set d. \<not> py_eq k' k)"
proof (induction d)
  case Nil
  show ?case by simp
next
  case (Cons p d)
  obtain a b where p: "p = (a, b)" by (cases p)
  show ?case using Cons by (simp add: p)
qed

lemma dict_get_unique:
  "(k0, v) \<in> set d \<Longrightarrow> py_eq k0 k \<Longrightarrow> (\<And>k1 v1. (k1, v1) \<in> set d \<Longrightarrow> py_eq k1 k \<Longrightarrow> v1 = v) \<Longrightarrow>
   dict_get d k = Some v"
proof (cases "dict_get d k")
  case None
  assume "(k0, v) \<in> set d" "py_eq k0 k"
  with None show ?thesis by (auto simp: dict_get_None_iff)
next
  case (Some w)
  assume u: "\<And>k1 v1. (k1, v1) \<in> set d \<Longrightarrow> py_eq k1 k \<Longrightarrow> v1 = v"
  from dict_get_SomeD [OF Some] obtain k' where "(k', w) \<in> set d" "py_eq k' k" by blast
  with u have "w = v" by blast
  with Some show ?thesis by simp
qed

lemma distinct_items_unique:
  assumes "distinct (map (\<lambda>(k, v). hkey k) d)" "(k1, v1) \<in> set d" "(k2, v2) \<in> set d"
    "hkey k1 = hkey k2"
  shows "v1 = v2"
proof -
  from assms(1) have "inj_on (\<lambda>(k, v). hkey k) (set d)" by (simp add: distinct_map)
  from inj_onD [OF this, of "(k1, v1)" "(k2, v2)"] assms show ?thesis by simp
qed

lemma hkey_container: "container v \<Longrightarrow> container (hkey v) \<and> py_type (hkey v) = py_type v"
  by (cases v) (simp_all add: container_def)

lemma hkey_scalar: "\<not> container v \<Longrightarrow> \<not> container (hkey v)"
  by (cases v) (simp_all add: container_def)

lemma py_eq_remove_none_scalar:
  assumes "\<not> container k"
  shows "py_eq (remove_none k1) k \<longleftrightarrow> py_eq k1 k"
proof (cases "container k1")
  case True
  then have "container (remove_none k1)" by (simp add: container_def py_type_remove_none)
  then have "container (hkey (remove_none k1))" and "container (hkey k1)"
    using True hkey_container by blast+
  with hkey_scalar [OF assms] show ?thesis by (auto simp: py_eq_def)
next
  case False
  then show ?thesis by (simp add: remove_none_scalar)
qed

lemma dict_get_remove_none:
  assumes dist: "distinct (map (\<lambda>(k, v). hkey k) d)" and sc: "\<not> container k"
    and get: "dict_get d k = Some v"
  shows "dict_get (entries (remove_none (PDict d))) k =
           (if k = PNone \<or> v = PNone then None else Some (remove_none v))"
proof -
  let ?d' = "map (\<lambda>(k, v). (remove_none k, remove_none v))
                 (filter (\<lambda>(k, v). k \<noteq> PNone \<and> v \<noteq> PNone) d)"
  from dict_get_SomeD [OF get] obtain k0 where k0: "(k0, v) \<in> set d" "py_eq k0 k" by blast
  have uniq: "v1 = v" if "(k1, v1) \<in> set d" "py_eq k1 k" for k1 v1
    using distinct_items_unique [OF dist that(1) k0(1)] that(2) k0(2) by (simp add: py_eq_def)
  have k0None: "k0 = PNone \<longleftrightarrow> k = PNone"
    using k0(2) sc by (cases k0; cases k) (auto simp: py_eq_def container_def split: if_splits)
  have src: "\<exists>k1 v1. (k1, v1) \<in> set d \<and> k1 \<noteq> PNone \<and> v1 \<noteq> PNone \<and> a = remove_none k1 \<and> b = remove_none v1"
    if "(a, b) \<in> set (rev ?d')" for a b
    using that by auto
  have eq: "dict_get (entries (remove_none (PDict d))) k = dict_get (rev ?d') k"
    by (simp add: dict_get_dict_of)
  show ?thesis
  proof (cases "k = PNone \<or> v = PNone")
    case True
    have "dict_get (rev ?d') k = None"
      unfolding dict_get_None_iff
    proof (clarify)
      fix a b assume ab: "(a, b) \<in> set (rev ?d')" and pe: "py_eq a k"
      from src [OF ab] obtain k1 v1 where s: "(k1, v1) \<in> set d" "k1 \<noteq> PNone" "v1 \<noteq> PNone"
        "a = remove_none k1" "b = remove_none v1" by blast
      from pe s(4) have p1: "py_eq k1 k" by (simp add: py_eq_remove_none_scalar [OF sc])
      from uniq [OF s(1) p1] s(3) True have "k = PNone" by simp
      with p1 s(2) sc show False
        by (cases k1) (auto simp: py_eq_def split: if_splits)
    qed
    with eq True show ?thesis by simp
  next
    case False
    with k0None have nn: "k0 \<noteq> PNone" "v \<noteq> PNone" by auto
    have "dict_get (rev ?d') k = Some (remove_none v)"
    proof (rule dict_get_unique [where ?k0.0 = "remove_none k0"])
      show "(remove_none k0, remove_none v) \<in> set (rev ?d')"
        using k0(1) nn by force
      show "py_eq (remove_none k0) k" using k0(2) by (simp add: py_eq_remove_none_scalar [OF sc])
    next
      fix a b assume ab: "(a, b) \<in> set (rev ?d')" and pe: "py_eq a k"
      from src [OF ab] obtain k1 v1 where s: "(k1, v1) \<in> set d" "k1 \<noteq> PNone" "v1 \<noteq> PNone"
        "a = remove_none k1" "b = remove_none v1" by blast
      from pe s(4) have p1: "py_eq k1 k" by (simp add: py_eq_remove_none_scalar [OF sc])
      from uniq [OF s(1) p1] s(5) show "b = remove_none v" by simp
    qed
    with eq False show ?thesis by simp
  qed
qed

lemma distinct_keys_value:
  "distinct_keys (PDict d) \<Longrightarrow> (k, v) \<in> set d \<Longrightarrow> distinct_keys v"
  by (auto simp: list_all_iff)

lemma get_path_remove_none:
  "distinct_keys v \<Longrightarrow> list_all (\<lambda>k. \<not> container k \<and> k \<noteq> PNone) path \<Longrightarrow>
   get_path v path = Some x \<Longrightarrow>
   get_path (remove_none v) path =
     (if x = PNone \<and> path \<noteq> [] then None else Some (remove_none x))"
proof (induction path arbitrary: v)
  case Nil
  then show ?case by simp
next
  case (Cons k ks)
  from Cons.prems(3) obtain d where v: "v = PDict d" by (cases v) auto
  from Cons.prems(3) v obtain w where w: "dict_get d k = Some w" "get_path w ks = Some x"
    by (auto split: option.splits)
  from Cons.prems(1) v have dist: "distinct (map (\<lambda>(k, v). hkey k) d)" by simp
  from Cons.prems(2) have sc: "\<not> container k" "k \<noteq> PNone" and ks: "list_all (\<lambda>k. \<not> container k \<and> k \<noteq> PNone) ks"
    by auto
  from dict_get_SomeD [OF w(1)] obtain k0 where "(k0, w) \<in> set d" by blast
  with Cons.prems(1) v have dw: "distinct_keys w" using distinct_keys_value by blast
  have g: "dict_get (entries (remove_none (PDict d))) k = (if w = PNone then None else Some (remove_none w))"
    using dict_get_remove_none [OF dist sc(1) w(1)] sc(2) by simp
  have step: "get_path (remove_none (PDict d)) (k # ks) =
      (case dict_get (entries (remove_none (PDict d))) k of None \<Rightarrow> None | Some u \<Rightarrow> get_path u ks)"
    by simp
  show ?case
  proof (cases "w = PNone")
    case True
    with w(2) have "ks = [] \<and> x = PNone" by (cases ks) auto
    with True g step v show ?thesis by simp
  next
    case False
    with w(2) have "\<not> (x = PNone \<and> ks = [])" by auto
    moreover from False g step have "get_path (remove_none (PDict d)) (k # ks) = get_path (remove_none w) ks"
      by simp
    ultimately show ?thesis using Cons.IH [OF dw ks w(2)] v by auto
  qed
qed

lemma set_add_keeps: "set ys \<subseteq> set (set_add ys x)"
  by (induction ys x rule: set_add.induct) auto

lemma set_add_covers: "\<exists>y \<in> set (set_add ys x). py_eq y x"
  by (induction ys x rule: set_add.induct) (auto simp: py_eq_def)

lemma set_of_covers_aux:
  "z \<in> set acc \<union> set zs \<Longrightarrow> \<exists>y \<in> set (foldl set_add acc zs). py_eq y z"
proof (induction zs arbitrary: acc z)
  case Nil
  then show ?case by (auto simp: py_eq_def)
next
  case (Cons a zs)
  show ?case
  proof (cases "z \<in> set acc \<union> set zs")
    case True
    then have "z \<in> set (set_add acc a) \<union> set zs" using set_add_keeps [of acc a] by auto
    from Cons.IH [OF this] show ?thesis by simp
  next
    case False
    with Cons.prems have "z = a" by auto
    with set_add_covers [of acc a] obtain y where y: "y \<in> set (set_add acc a)" "py_eq y z" by blast
    then have "y \<in> set (set_add acc a) \<union> set zs" by simp
    from Cons.IH [OF this] obtain y' where "y' \<in> set (foldl set_add (set_add acc a) zs)" "py_eq y' y"
      by blast
    with y(2) show ?thesis by (auto simp: py_eq_def)
  qed
qed

lemma set_of_covers: "z \<in> set zs \<Longrightarrow> \<exists>y \<in> set (set_of zs). py_eq y z"
  using set_of_covers_aux [of z "[]" zs] by (simp add: set_of_def)

lemma dict_of_covers:
  assumes "(k, v) \<in> set ps"
  shows "\<exists>(k', v') \<in> set (dict_of ps). py_eq k' k"
proof -
  from assms have "(k, v) \<in> set (rev ps)" by simp
  then have "dict_get (rev ps) k \<noteq> None"
    by (auto simp: dict_get_None_iff py_eq_def)
  then obtain w where "dict_get (dict_of ps) k = Some w" by (auto simp: dict_get_dict_of)
  from dict_get_SomeD [OF this] show ?thesis by blast
qed

lemma elements_survive:
  assumes "x \<in> set (elements v)" "x \<noteq> PNone"
  shows "\<exists>y \<in> set (elements (remove_none v)). py_eq y (remove_none x)"
proof (cases v)
  case (PSet xs)
  with assms have "remove_none x \<in> set (map remove_none (filter (\<lambda>x. x \<noteq> PNone) xs))" by simp
  from set_of_covers [OF this] show ?thesis by (simp add: PSet)
qed (use assms in \<open>auto simp: py_eq_def\<close>)

lemma entries_survive:
  assumes "(k, w) \<in> set (entries v)" "k \<noteq> PNone" "w \<noteq> PNone"
  shows "\<exists>(k', w') \<in> set (entries (remove_none v)). py_eq k' (remove_none k)"
proof (cases v)
  case (PDict d)
  with assms have "(remove_none k, remove_none w) \<in> set (map (\<lambda>(k, v). (remove_none k, remove_none v))
                         (filter (\<lambda>(k, v). k \<noteq> PNone \<and> v \<noteq> PNone) d))" by force
  from dict_of_covers [OF this] show ?thesis by (simp add: PDict)
qed (use assms in auto)

text \<open>
  C10. \<^verbatim>\<open>remove_none\<close> returns a value that is not a list, tuple, set or dict unchanged and
  keeps the type of a container. Its result has no \<^verbatim>\<open>None\<close> element, key or value at any
  depth, in sequences and sets as in mappings. Only \<^verbatim>\<open>None\<close> is removed: a value with no
  \<^verbatim>\<open>None\<close> inside is returned as it is, every element other than \<^verbatim>\<open>None\<close> and every
  item whose key and value are not \<^verbatim>\<open>None\<close> is still there (stripped in turn), and the
  falsy values \<^verbatim>\<open>''\<close>, \<^verbatim>\<open>0\<close>, \<^verbatim>\<open>False\<close>, \<^verbatim>\<open>[]\<close>, \<^verbatim>\<open>()\<close>, \<^verbatim>\<open>set()\<close>, \<^verbatim>\<open>{}\<close> stay in
  a list next to a \<^verbatim>\<open>None\<close> that goes.
\<close>

theorem remove_none_only_null:
  "(\<not> container v \<longrightarrow> remove_none v = v) \<and>
   py_type (remove_none v) = py_type v \<and>
   no_none_in (remove_none v) \<and>
   (distinct_keys v \<and> no_none_in v \<longrightarrow> remove_none v = v) \<and>
   (x \<in> set (elements v) \<and> x \<noteq> PNone \<longrightarrow>
      (\<exists>y \<in> set (elements (remove_none v)). py_eq y (remove_none x))) \<and>
   ((k, w) \<in> set (entries v) \<and> k \<noteq> PNone \<and> w \<noteq> PNone \<longrightarrow>
      (\<exists>(k', w') \<in> set (entries (remove_none v)). py_eq k' (remove_none k))) \<and>
   remove_none (PList [PNone, PStr [], PInt 0, PBool False, PList [], PTuple [], PSet [], PDict []])
     = PList [PStr [], PInt 0, PBool False, PList [], PTuple [], PSet [], PDict []]"
proof (intro conjI impI)
  show "remove_none (PList [PNone, PStr [], PInt 0, PBool False, PList [], PTuple [], PSet [], PDict []])
     = PList [PStr [], PInt 0, PBool False, PList [], PTuple [], PSet [], PDict []]"
    by (simp add: set_of_def dict_of_def)
next
  assume "x \<in> set (elements v) \<and> x \<noteq> PNone"
  then show "\<exists>y \<in> set (elements (remove_none v)). py_eq y (remove_none x)"
    using elements_survive by blast
next
  assume "(k, w) \<in> set (entries v) \<and> k \<noteq> PNone \<and> w \<noteq> PNone"
  then show "\<exists>(k', w') \<in> set (entries (remove_none v)). py_eq k' (remove_none k)"
    using entries_survive by blast
qed (simp_all add: remove_none_scalar py_type_remove_none no_none_in_remove_none remove_none_id
      del: remove_none.simps)

text \<open>A scalar, a dict without nulls, a set and a dict with a null and a falsy value.\<close>

theorem remove_none_only_null_witness:
  "remove_none (PInt 0) = PInt 0 \<and>
   remove_none (PDict [(PStr ''a'', PList [])]) = PDict [(PStr ''a'', PList [])] \<and>
   list_ex (\<lambda>y. py_eq y (PInt 0)) (elements (remove_none (PSet [PNone, PInt 0]))) \<and>
   list_ex (\<lambda>(k', w'). py_eq k' (PStr ''a''))
     (entries (remove_none (PDict [(PStr ''a'', PBool False), (PStr ''b'', PNone)])))"
  using remove_none_only_null [of "PInt 0" "PInt 0" PNone PNone]
    remove_none_only_null [of "PDict [(PStr ''a'', PList [])]" PNone PNone PNone]
    remove_none_only_null [of "PSet [PNone, PInt 0]" "PInt 0" PNone PNone]
    remove_none_only_null [of "PDict [(PStr ''a'', PBool False), (PStr ''b'', PNone)]" PNone "PStr ''a''" "PBool False"]
  by (simp add: container_def set_of_def dict_of_def py_eq_def)

lemma convert_to_object_without_none_Inr:
  "convert_to_object_without_none L txt = Inr out \<Longrightarrow>
   \<exists>raw. anymarkup_parse L txt = Inr raw \<and> yaml_dump L (remove_none raw) = Inr out"
  by (auto simp: convert_to_object_without_none_def split: sum.splits)

lemma write_item_named:
  assumes "json_dumps L item = Inr t" "getitem item key = Inr (PStr name)"
  shows "write_item L folder key False item s =
           write_file folder (file_path folder (sanitize_name name) ''json'') t s"
    and "write_item L folder key True item s =
           (case convert_to_object_without_none L t of
              Inl e \<Rightarrow> (Inl e, s)
            | Inr out \<Rightarrow> write_file folder (file_path folder (sanitize_name name) ''yaml'') out s)"
  using assms by (simp_all add: write_item_def)

lemma dump_xml_pretty:
  assumes "prettyxml L (sub_date doc) = Inr t2"
  shows "dump_xml L folder doc name False s =
           write_file folder (file_path folder (sanitize_name name) ''xml'') (replace_quot t2)
             (ensure_folder folder s)"
    and "dump_xml L folder doc name True s =
           (case convert_to_object_without_none L (replace_quot t2) of
              Inl e \<Rightarrow> (Inl e, ensure_folder folder s)
            | Inr out \<Rightarrow>
                write_file folder (file_path folder (sanitize_name name) ''yaml'') out
                  (ensure_folder folder s))"
  using assms by (simp_all add: dump_xml_def Let_def)

text \<open>
  C3. The alternate-format conversion renders \<^verbatim>\<open>remove_none\<close> of the parsed input, and
  that object has no null-valued key (nor any other \<^verbatim>\<open>None\<close> entry) at any nesting depth.
  Along a path of keys through nested mappings, a key whose value is null is absent
  from the stripped object and a key whose value is not null is retained with its
  stripped value. The stripping is on the alternate-format path only: with
  \<open>save_yaml\<close> unset, \<^verbatim>\<open>dumps_json\<close> writes the text of \<^verbatim>\<open>json.dumps\<close> and \<^verbatim>\<open>dump_xml\<close>
  the re-indented markup as they are; with \<open>save_yaml\<close> set, both write the result of
  the conversion.
\<close>

theorem null_stripping_on_yaml_path:
  "(convert_to_object_without_none L txt = Inr out \<longrightarrow>
      (\<exists>raw. anymarkup_parse L txt = Inr raw \<and> yaml_dump L (remove_none raw) = Inr out)) \<and>
   no_none_in (remove_none raw) \<and>
   (distinct_keys raw \<and> list_all (\<lambda>k. \<not> container k \<and> k \<noteq> PNone) path \<and>
    get_path raw path = Some x \<longrightarrow>
      get_path (remove_none raw) path =
        (if x = PNone \<and> path \<noteq> [] then None else Some (remove_none x))) \<and>
   (json_dumps L item = Inr t \<and> getitem item key = Inr (PStr name) \<longrightarrow>
      write_item L folder key False item s =
        write_file folder (file_path folder (sanitize_name name) ''json'') t s \<and>
      write_item L folder key True item s =
        (case convert_to_object_without_none L t of
           Inl e \<Rightarrow> (Inl e, s)
         | Inr out \<Rightarrow> write_file folder (file_path folder (sanitize_name name) ''yaml'') out s)) \<and>
   (prettyxml L (sub_date doc) = Inr t2 \<longrightarrow>
      dump_xml L folder doc name False s =
        write_file folder (file_path folder (sanitize_name name) ''xml'') (replace_quot t2)
          (ensure_folder folder s) \<and>
      dump_xml L folder doc name True s =
        (case convert_to_object_without_none L (replace_quot t2) of
           Inl e \<Rightarrow> (Inl e, ensure_folder folder s)
         | Inr out \<Rightarrow>
             write_file folder (file_path folder (sanitize_name name) ''yaml'') out
               (ensure_folder folder s)))"
proof (intro conjI impI)
  assume "convert_to_object_without_none L txt = Inr out"
  then show "\<exists>raw. anymarkup_parse L txt = Inr raw \<and> yaml_dump L (remove_none raw) = Inr out"
    by (rule convert_to_object_without_none_Inr)
next
  show "no_none_in (remove_none raw)" by (rule no_none_in_remove_none)
next
  assume "distinct_keys raw \<and> list_all (\<lambda>k. \<not> container k \<and> k \<noteq> PNone) path \<and>
    get_path raw path = Some x"
  then show "get_path (remove_none raw) path =
        (if x = PNone \<and> path \<noteq> [] then None else Some (remove_none x))"
    using get_path_remove_none by blast
next
  assume a: "json_dumps L item = Inr t \<and> getitem item key = Inr (PStr name)"
  then show "write_item L folder key False item s =
        write_file folder (file_path folder (sanitize_name name) ''json'') t s"
    using write_item_named(1) by blast
  from a show "write_item L folder key True item s =
        (case convert_to_object_without_none L t of
           Inl e \<Rightarrow> (Inl e, s)
         | Inr out \<Rightarrow> write_file folder (file_path folder (sanitize_name name) ''yaml'') out s)"
    using write_item_named(2) by blast
next
  assume a: "prettyxml L (sub_date doc) = Inr t2"
  then show "dump_xml L folder doc name False s =
        write_file folder (file_path folder (sanitize_name name) ''xml'') (replace_quot t2)
          (ensure_folder folder s)"
    by (rule dump_xml_pretty(1))
  from a show "dump_xml L folder doc name True s =
        (case convert_to_object_without_none L (replace_quot t2) of
           Inl e \<Rightarrow> (Inl e, ensure_folder folder s)
         | Inr out \<Rightarrow>
             write_file folder (file_path folder (sanitize_name name) ''yaml'') out
               (ensure_folder folder s))"
    by (rule dump_xml_pretty(2))
qed

text \<open>
  A nested mapping with a null-valued key \<^verbatim>\<open>b\<close> and a sibling \<^verbatim>\<open>c\<close>, and one item
  written on each path without the flag.
\<close>

theorem null_stripping_on_yaml_path_witness:
  "get_path (remove_none (PDict [(PStr ''a'', PDict [(PStr ''b'', PNone), (PStr ''c'', PInt 0)])]))
     [PStr ''a'', PStr ''b''] = None \<and>
   get_path (remove_none (PDict [(PStr ''a'', PDict [(PStr ''b'', PNone), (PStr ''c'', PInt 0)])]))
     [PStr ''a'', PStr ''c''] = Some (PInt 0) \<and>
   convert_to_object_without_none
     \<lparr>json_dumps = \<lambda>v. Inr ''{}'', anymarkup_parse = \<lambda>t. Inr (PDict [(PStr ''a'', PNone)]),
      yaml_dump = \<lambda>v. if v = PDict [] then Inr ''{}'' else Inl (LibraryError ''other''),
      prettyxml = Inr\<rparr> ''{}'' = Inr ''{}'' \<and>
   files (snd (write_item
     \<lparr>json_dumps = \<lambda>v. Inr ''{}'', anymarkup_parse = \<lambda>t. Inr (PDict [(PStr ''a'', PNone)]),
      yaml_dump = \<lambda>v. if v = PDict [] then Inr ''{}'' else Inl (LibraryError ''other''),
      prettyxml = Inr\<rparr> ''f'' ''name'' False (PDict [(PStr ''name'', PStr ''n'')])
     \<lparr>dirs = {''f''}, files = Map.empty\<rparr>)) ''f/n.json'' = Some ''{}'' \<and>
   files (snd (dump_xml
     \<lparr>json_dumps = \<lambda>v. Inr ''{}'', anymarkup_parse = \<lambda>t. Inr (PDict [(PStr ''a'', PNone)]),
      yaml_dump = \<lambda>v. if v = PDict [] then Inr ''{}'' else Inl (LibraryError ''other''),
      prettyxml = Inr\<rparr> ''f'' ''<a/>'' ''n'' False
     \<lparr>dirs = {}, files = Map.empty\<rparr>)) ''f/n.xml'' = Some ''<a/>''"
proof -
  let ?L = "\<lparr>json_dumps = \<lambda>v. Inr ''{}'', anymarkup_parse = \<lambda>t. Inr (PDict [(PStr ''a'', PNone)]),
      yaml_dump = \<lambda>v. if v = PDict [] then Inr ''{}'' else Inl (LibraryError ''other''),
      prettyxml = Inr\<rparr>"
  let ?raw = "PDict [(PStr ''a'', PDict [(PStr ''b'', PNone), (PStr ''c'', PInt 0)])]"
  have c: "convert_to_object_without_none ?L ''{}'' = Inr ''{}''"
    by (simp add: convert_to_object_without_none_def dict_of_def)
  have sd: "sub_date ''<a/>'' = ''<a/>''"
    by code_simp
  have rq: "replace_quot ''<a/>'' = ''<a/>''"
    by code_simp
  have sn: "sanitize_name ''n'' = ''n''"
    by code_simp
  note t1 = null_stripping_on_yaml_path [of ?L "''{}''" "''{}''" ?raw "[PStr ''a'', PStr ''b'']" PNone
      "PDict [(PStr ''name'', PStr ''n'')]" "''{}''" "''name''" "''n''" "''f''"
      "\<lparr>dirs = {''f''}, files = Map.empty\<rparr>" "''<a/>''" "''<a/>''"]
  note t2 = null_stripping_on_yaml_path [of ?L "''{}''" "''{}''" ?raw "[PStr ''a'', PStr ''c'']" "PInt 0"
      "PDict [(PStr ''name'', PStr ''n'')]" "''{}''" "''name''" "''n''" "''f''"
      "\<lparr>dirs = {}, files = Map.empty\<rparr>" "''<a/>''" "''<a/>''"]
  have h1: "distinct_keys ?raw \<and> list_all (\<lambda>k. \<not> container k \<and> k \<noteq> PNone) [PStr ''a'', PStr ''b''] \<and>
      get_path ?raw [PStr ''a'', PStr ''b''] = Some PNone"
    by (simp add: container_def py_eq_def)
  have h2: "distinct_keys ?raw \<and> list_all (\<lambda>k. \<not> container k \<and> k \<noteq> PNone) [PStr ''a'', PStr ''c''] \<and>
      get_path ?raw [PStr ''a'', PStr ''c''] = Some (PInt 0)"
    by (simp add: container_def py_eq_def)
  have h3: "json_dumps ?L (PDict [(PStr ''name'', PStr ''n'')]) = Inr ''{}'' \<and>
      getitem (PDict [(PStr ''name'', PStr ''n'')]) ''name'' = Inr (PStr ''n'')"
    by (simp add: py_eq_def)
  have h4: "prettyxml ?L (sub_date ''<a/>'') = Inr ''<a/>''"
    unfolding sd by simp
  have p1: "get_path (remove_none ?raw) [PStr ''a'', PStr ''b''] = None"
    using t1 [THEN conjunct2, THEN conjunct2, THEN conjunct1, THEN mp, OF h1] by simp
  have p2: "get_path (remove_none ?raw) [PStr ''a'', PStr ''c''] = Some (PInt 0)"
    using t2 [THEN conjunct2, THEN conjunct2, THEN conjunct1, THEN mp, OF h2] by simp
  have w1: "files (snd (write_item ?L ''f'' ''name'' False (PDict [(PStr ''name'', PStr ''n'')])
     \<lparr>dirs = {''f''}, files = Map.empty\<rparr>)) ''f/n.json'' = Some ''{}''"
    using t1 [THEN conjunct2, THEN conjunct2, THEN conjunct2, THEN conjunct1, THEN mp, OF h3,
        THEN conjunct1]
    unfolding sn by (simp add: write_file_def file_path_def)
  have w2: "files (snd (dump_xml ?L ''f'' ''<a/>'' ''n'' False
     \<lparr>dirs = {}, files = Map.empty\<rparr>)) ''f/n.xml'' = Some ''<a/>''"
    using t2 [THEN conjunct2, THEN conjunct2, THEN conjunct2, THEN conjunct2, THEN mp, OF h4,
        THEN conjunct1]
    unfolding rq sn
    by (simp add: write_file_def file_path_def ensure_folder_def path_exists_def makedirs_def)
  from p1 p2 c w1 w2 show ?thesis by blast
qed

subsection \<open>The connection resolver\<close>

text \<open>
  C7. For every URL, user name and password, the resolver returns the handle of the first
  attempt that succeeds. When the first attempt succeeds the world is as that attempt
  left it and only its start is logged: the second attempt is not made. When the first
  raises, its exception is logged and the second attempt runs from the world the first
  left. When both raise, the result is the one exception of \<^verbatim>\<open>get_zabbix_connection\<close>
  itself, raised after both underlying exceptions were logged, in their order.
\<close>

theorem get_zabbix_connection_first_success:
  "(try_pyzabbix Z url user pw w = (Inr h, w1) \<longrightarrow>
      get_zabbix_connection Z url user pw (log, w) =
        (Inr h, log @ [Debug ''Try connect to Zabbix by pyzabbix...''], w1)) \<and>
   (try_pyzabbix Z url user pw w = (Inl e1, w1) \<and>
    try_py_zabbix Z url user pw w1 = (Inr h, w2) \<longrightarrow>
      get_zabbix_connection Z url user pw (log, w) =
        (Inr h,
         log @ [Debug ''Try connect to Zabbix by pyzabbix...'', LoggedException e1,
                Debug ''Try connect to Zabbix by py-zabbix...''], w2)) \<and>
   (try_pyzabbix Z url user pw w = (Inl e1, w1) \<and>
    try_py_zabbix Z url user pw w1 = (Inl e2, w2) \<longrightarrow>
      get_zabbix_connection Z url user pw (log, w) =
        (Inl (Exception ''Some error in pyzabbix or py_zabbix module, see logs''),
         log @ [Debug ''Try connect to Zabbix by pyzabbix...'', LoggedException e1,
                Debug ''Try connect to Zabbix by py-zabbix...'', LoggedException e2], w2))"
  by (simp add: get_zabbix_connection_def)

text \<open>
  A client whose constructor takes the credentials (py-zabbix): without them it raises,
  with them it returns handle 1 for the password \<^verbatim>\<open>pw\<close>. The world counts the requests.
\<close>

theorem get_zabbix_connection_first_success_witness:
  "get_zabbix_connection
     \<lparr>ZabbixAPI = \<lambda>url cred w. (case cred of None \<Rightarrow> (Inl (LibraryError ''login''), Suc w)
          | Some (u, p) \<Rightarrow> (if p = ''pw'' then Inr (1::nat) else Inl (LibraryError ''denied''), Suc w)),
      set_verify = \<lambda>h b. Inr h,
      login = \<lambda>h u p w. (Inl (LibraryError ''no login''), Suc w)\<rparr>
     ''http://z'' ''admin'' ''pw'' ([], 0::nat)
   = (Inr 1, [Debug ''Try connect to Zabbix by pyzabbix...'', LoggedException (LibraryError ''login''),
              Debug ''Try connect to Zabbix by py-zabbix...''], 2) \<and>
   get_zabbix_connection
     \<lparr>ZabbixAPI = \<lambda>url cred w. (case cred of None \<Rightarrow> (Inl (LibraryError ''login''), Suc w)
          | Some (u, p) \<Rightarrow> (if p = ''pw'' then Inr (1::nat) else Inl (LibraryError ''denied''), Suc w)),
      set_verify = \<lambda>h b. Inr h,
      login = \<lambda>h u p w. (Inl (LibraryError ''no login''), Suc w)\<rparr>
     ''http://z'' ''admin'' ''bad'' ([], 0::nat)
   = (Inl (Exception ''Some error in pyzabbix or py_zabbix module, see logs''),
      [Debug ''Try connect to Zabbix by pyzabbix...'', LoggedException (LibraryError ''login''),
       Debug ''Try connect to Zabbix by py-zabbix...'', LoggedException (LibraryError ''denied'')], 2) \<and>
   get_zabbix_connection
     \<lparr>ZabbixAPI = \<lambda>url cred w. (Inr (7::nat), Suc w),
      set_verify = \<lambda>h b. Inr h,
      login = \<lambda>h u p w. (Inr h, Suc w)\<rparr>
     ''http://z'' ''admin'' ''pw'' ([], 0::nat)
   = (Inr 7, [Debug ''Try connect to Zabbix by pyzabbix...''], 2)"
proof -
  let ?Z = "\<lparr>ZabbixAPI = \<lambda>url cred w. (case cred of None \<Rightarrow> (Inl (LibraryError ''login''), Suc w)
          | Some (u, p) \<Rightarrow> (if p = ''pw'' then Inr (1::nat) else Inl (LibraryError ''denied''), Suc w)),
      set_verify = \<lambda>h b. Inr h,
      login = \<lambda>h u p w. (Inl (LibraryError ''no login''), Suc w)\<rparr>"
  let ?Y = "\<lparr>ZabbixAPI = \<lambda>url cred w. (Inr (7::nat), Suc w),
      set_verify = \<lambda>h b. Inr h,
      login = \<lambda>h u p w. (Inr h, Suc w)\<rparr>"
  have a1: "try_pyzabbix ?Z ''http://z'' ''admin'' ''pw'' 0 = (Inl (LibraryError ''login''), 1) \<and>
    try_py_zabbix ?Z ''http://z'' ''admin'' ''pw'' 1 = (Inr 1, 2)"
    by (simp add: try_pyzabbix_def try_py_zabbix_def)
  have a2: "try_pyzabbix ?Z ''http://z'' ''admin'' ''bad'' 0 = (Inl (LibraryError ''login''), 1) \<and>
    try_py_zabbix ?Z ''http://z'' ''admin'' ''bad'' 1 = (Inl (LibraryError ''denied''), 2)"
    by (simp add: try_pyzabbix_def try_py_zabbix_def)
  have a3: "try_pyzabbix ?Y ''http://z'' ''admin'' ''pw'' 0 = (Inr 7, 2)"
    by (simp add: try_pyzabbix_def)
  note t = get_zabbix_connection_first_success
  from t [THEN conjunct2, THEN conjunct1, THEN mp, OF a1, of "[]"]
    t [THEN conjunct2, THEN conjunct2, THEN mp, OF a2, of "[]"]
    t [THEN conjunct1, THEN mp, OF a3, of "[]"]
  show ?thesis by simp
qed

subsection \<open>Key ordering\<close>

lemma py_lt_str: "is_str a \<Longrightarrow> is_str b \<Longrightarrow> py_lt a b = Some (str_of a < str_of b)"
  by (cases a; cases b) simp_all

lemma insort_item_str:
  "is_str (fst x) \<Longrightarrow> list_all (\<lambda>(k, v). is_str k) ys \<Longrightarrow>
   insort_item x ys = insort_key key_of x ys"
proof (induction ys)
  case Nil
  show ?case by simp
next
  case (Cons y ys)
  obtain a b where x: "x = (a, b)" by (cases x)
  obtain c d where y: "y = (c, d)" by (cases y)
  from Cons.prems x y have "py_lt c a = Some (str_of c < str_of a)"
    by (simp add: py_lt_str)
  then show ?case using Cons x y by (auto simp: not_less)
qed

lemma foldr_insort_item_str:
  "list_all (\<lambda>(k, v). is_str k) e \<Longrightarrow> foldr insort_item e [] = sort_key key_of e"
proof (induction e)
  case Nil
  show ?case by simp
next
  case (Cons x e)
  then have IH: "foldr insort_item e [] = sort_key key_of e" by simp
  from Cons.prems have "list_all (\<lambda>(k, v). is_str k) (sort_key key_of e)"
    by (simp add: list_all_iff)
  moreover from Cons.prems have "is_str (fst x)" by (cases x) simp
  ultimately show ?case using IH by (simp add: insort_item_str sort_key_def)
qed

lemma comparable_str: "list_all (\<lambda>(k, v). is_str k) e \<Longrightarrow> comparable (map fst e)"
  by (simp add: comparable_def list_all_iff case_prod_beta py_lt_str)

lemma sorted_items_str:
  "list_all (\<lambda>(k, v). is_str k) e \<Longrightarrow> sorted_items e = Inr (sort_key key_of e)"
  by (simp add: sorted_items_def comparable_str foldr_insort_item_str)

lemma str_of_inj: "is_str a \<Longrightarrow> is_str b \<Longrightarrow> str_of a = str_of b \<Longrightarrow> a = b"
  by (cases a; cases b) simp_all

lemma distinct_key_of:
  assumes "list_all (\<lambda>(k, v). is_str k) e" "distinct (map fst e)"
  shows "distinct (map key_of e)"
proof -
  have "map key_of e = map str_of (map fst e)" by (simp add: case_prod_beta comp_def)
  moreover have "inj_on str_of (set (map fst e))"
    using assms(1) by (simp add: inj_on_def list_all_iff case_prod_beta str_of_inj)
  ultimately show ?thesis using assms(2) by (simp add: distinct_map del: map_map)
qed

lemma sort_key_mset_unique:
  assumes "mset xs = mset ys" "distinct (map f xs)"
  shows "sort_key f xs = sort_key f ys"
proof (rule properties_for_sort_key)
  show "mset (sort_key f ys) = mset xs" using assms(1) by simp
  show "sorted (map f (sort_key f ys))" by simp
next
  fix k assume k: "k \<in> set (sort_key f ys)"
  from assms(1) have s: "set xs = set ys" by (rule mset_eq_setD)
  from assms(2) have dx: "distinct xs" and inj: "inj_on f (set xs)" by (auto simp: distinct_map)
  from assms(1) dx have dy: "distinct ys" by (metis mset_eq_imp_distinct_iff)
  have "filter (\<lambda>x. f k = f x) zs = filter (\<lambda>x. k = x) zs" if "set zs = set xs" for zs
    using inj k s that by (intro filter_cong) (auto simp: inj_on_def)
  then have "filter (\<lambda>x. f k = f x) (sort_key f ys) = filter (\<lambda>x. k = x) (sort_key f ys)"
    and "filter (\<lambda>x. f k = f x) xs = filter (\<lambda>x. k = x) xs"
    using s by auto
  moreover have "mset (filter (\<lambda>x. k = x) (sort_key f ys)) = mset (filter (\<lambda>x. k = x) xs)"
    using assms(1) by simp
  moreover have "filter (\<lambda>x. k = x) zs = replicate (count (mset zs) k) k" for zs
    by (induction zs) auto
  ultimately show "filter (\<lambda>x. f k = f x) (sort_key f ys) = filter (\<lambda>x. f k = f x) xs"
    using assms(1) by simp
qed

lemma ordered_item_keys: "list_all2 ordered_item d d' \<Longrightarrow> map fst d' = map fst d"
  by (induction d d' rule: list_all2_induct) auto

lemma ordered_item_member:
  "list_all2 ordered_item d d' \<Longrightarrow> (k, v) \<in> set d \<Longrightarrow>
   \<exists>v'. (k, v') \<in> set d' \<and> same_data v v'"
  by (induction d d' rule: list_all2_induct) auto

lemma ordered_item_values:
  "list_all2 ordered_item d d' \<Longrightarrow> (k, v') \<in> set d' \<Longrightarrow> keys_sorted v' \<and> str_keys v'"
  by (induction d d' rule: list_all2_induct) auto

lemma order_dict_str:
  assumes ov: "order_values d = Inr d'" and rel: "list_all2 ordered_item d d'"
    and dist: "distinct (map fst d)" and strs: "list_all (\<lambda>(k, v). is_str k) d"
  shows "order_data (PDict d) = Inr (PDict (sort_key key_of d')) \<and>
         keys_sorted (PDict (sort_key key_of d')) \<and>
         same_data (PDict d) (PDict (sort_key key_of d')) \<and>
         str_keys (PDict (sort_key key_of d'))"
proof -
  let ?s = "sort_key key_of d'"
  have keys: "map fst d' = map fst d" using rel by (rule ordered_item_keys)
  have strs': "list_all (\<lambda>(k, v). is_str k) d'"
  proof -
    have "list_all is_str (map fst d')" using strs keys
      by (simp add: list_all_iff case_prod_beta)
    then show ?thesis by (simp add: list_all_iff case_prod_beta)
  qed
  have dist': "distinct (map fst d')" using dist keys by simp
  have set_s: "set ?s = set d'" by simp
  have dist_s: "distinct (map fst ?s)"
  proof -
    have "mset (map fst ?s) = mset (map fst d')" by simp
    then show ?thesis using dist' by (metis mset_eq_imp_distinct_iff)
  qed
  have od: "order_data (PDict d) = Inr (PDict ?s)"
    using ov sorted_items_str [OF strs'] by simp
  have "distinct (map key_of d')" using strs' dist' by (rule distinct_key_of)
  then have "distinct (map key_of ?s)"
    by (metis mset_eq_imp_distinct_iff mset_map mset_sort)
  then have sw: "sorted_wrt (<) (map key_of ?s)"
    by (simp add: strict_sorted_iff)
  have vals: "list_all (\<lambda>(k, v). keys_sorted v) ?s" "list_all (\<lambda>(k, v). is_str k \<and> str_keys v) ?s"
    using ordered_item_values [OF rel] strs' by (auto simp: list_all_iff)
  have same: "list_all (\<lambda>(k, v). case map_of ?s k of None \<Rightarrow> False | Some v' \<Rightarrow> same_data v v') d"
    unfolding list_all_iff
  proof (clarify)
    fix k v assume "(k, v) \<in> set d"
    from ordered_item_member [OF rel this] obtain v' where v': "(k, v') \<in> set d'" "same_data v v'"
      by blast
    from v'(1) have "(k, v') \<in> set ?s" by simp
    with dist_s have "map_of ?s k = Some v'" by (rule map_of_is_SomeI)
    with v'(2) show "case map_of ?s k of None \<Rightarrow> False | Some v' \<Rightarrow> same_data v v'" by simp
  qed
  have len: "length d = length ?s" using rel by (simp add: list_all2_lengthD)
  from od sw vals same len dist_s show ?thesis by simp
qed

lemma order_data_str:
  "(str_keys v \<longrightarrow>
      (\<exists>r. order_data v = Inr r \<and> keys_sorted r \<and> same_data v r \<and> str_keys r))"
  "(list_all str_keys xs \<longrightarrow>
      (\<exists>ys. order_list xs = Inr ys \<and> list_all keys_sorted ys \<and> list_all2 same_data xs ys \<and>
            list_all str_keys ys))"
  "(list_all (\<lambda>(k, v). is_str k \<and> str_keys v) d \<longrightarrow>
      (\<exists>d'. order_values d = Inr d' \<and> list_all2 ordered_item d d'))"
proof (induction v and xs and d rule: order_data_order_list_order_values.induct)
  case (1 d)
  show ?case
  proof
    assume sk: "str_keys (PDict d)"
    then have "list_all (\<lambda>(k, v). is_str k \<and> str_keys v) d" by simp
    with 1 obtain d' where d': "order_values d = Inr d'" "list_all2 ordered_item d d'" by blast
    from sk have "distinct (map fst d)" "list_all (\<lambda>(k, v). is_str k) d"
      by (auto simp: list_all_iff)
    from order_dict_str [OF d' this]
    show "\<exists>r. order_data (PDict d) = Inr r \<and> keys_sorted r \<and> same_data (PDict d) r \<and> str_keys r"
      by blast
  qed
next
  case (2 xs)
  then show ?case by auto
next
  case (5 x xs)
  show ?case
  proof
    assume a: "list_all str_keys (x # xs)"
    with "5.IH"(1) obtain y where y: "order_data x = Inr y" "keys_sorted y" "same_data x y" "str_keys y"
      by auto
    with a "5.IH"(2) [OF y(1)] obtain ys where "order_list xs = Inr ys" "list_all keys_sorted ys"
      "list_all2 same_data xs ys" "list_all str_keys ys" by auto
    with y show "\<exists>ys. order_list (x # xs) = Inr ys \<and> list_all keys_sorted ys \<and>
       list_all2 same_data (x # xs) ys \<and> list_all str_keys ys" by simp
  qed
next
  case (7 k v d)
  show ?case
  proof
    assume a: "list_all (\<lambda>(k, v). is_str k \<and> str_keys v) ((k, v) # d)"
    with "7.IH"(1) obtain v' where v': "order_data v = Inr v'" "keys_sorted v'" "same_data v v'" "str_keys v'"
      by auto
    with a "7.IH"(2) [OF v'(1)] obtain d' where "order_values d = Inr d'" "list_all2 ordered_item d d'"
      by auto
    with v' show "\<exists>d'. order_values ((k, v) # d) = Inr d' \<and> list_all2 ordered_item ((k, v) # d) d'"
      by simp
  qed
qed simp_all

lemma order_list_nth:
  "order_list xs = Inr ys \<Longrightarrow>
   length ys = length xs \<and> (\<forall>i < length xs. order_data (xs ! i) = Inr (ys ! i))"
proof (induction xs arbitrary: ys)
  case Nil
  then show ?case by simp
next
  case (Cons x xs)
  from Cons.prems obtain y zs where y: "order_data x = Inr y" "order_list xs = Inr zs" "ys = y # zs"
    by (auto split: sum.splits)
  from Cons.IH [OF y(2)] y(1,3) show ?case by (auto simp: nth_Cons split: nat.splits)
qed

lemma order_list_cong:
  "list_all2 (\<lambda>x y. order_data x = order_data y) xs ys \<Longrightarrow> order_list xs = order_list ys"
  by (induction xs ys rule: list_all2_induct) (auto split: sum.splits)

lemma order_values_rel:
  "order_values d = Inr e \<Longrightarrow> list_all2 (\<lambda>(k, v) (k', w). k = k' \<and> order_data v = Inr w) d e"
proof (induction d arbitrary: e)
  case Nil
  then show ?case by simp
next
  case (Cons p d)
  obtain k v where p: "p = (k, v)" by (cases p)
  from Cons.prems p obtain w e' where w: "order_data v = Inr w" "order_values d = Inr e'" "e = (k, w) # e'"
    by (auto split: sum.splits)
  from Cons.IH [OF w(2)] w(1,3) p show ?case by simp
qed

lemma order_values_source:
  "list_all2 (\<lambda>(k, v) (k', w). k = k' \<and> order_data v = Inr w) d e \<Longrightarrow> (k, w) \<in> set e \<Longrightarrow>
   \<exists>v. (k, v) \<in> set d \<and> order_data v = Inr w"
  by (induction d e rule: list_all2_induct) auto

lemma order_values_target:
  "list_all2 (\<lambda>(k, v) (k', w). k = k' \<and> order_data v = Inr w) d e \<Longrightarrow> (k, v) \<in> set d \<Longrightarrow>
   order_data v = Inr w \<Longrightarrow> (k, w) \<in> set e"
  by (induction d e rule: list_all2_induct) auto

lemma order_values_keys:
  "list_all2 (\<lambda>(k, v) (k', w). k = k' \<and> order_data v = Inr w) d e \<Longrightarrow> map fst e = map fst d"
  by (induction d e rule: list_all2_induct) auto

lemma same_data_order:
  "same_data a b \<Longrightarrow> str_keys a \<Longrightarrow> str_keys b \<Longrightarrow> order_data a = order_data b"
proof (induction a b rule: same_data.induct)
  case (1 xs ys)
  from "1.prems" have "list_all2 same_data xs ys" "list_all str_keys xs" "list_all str_keys ys"
    by simp_all
  then have "list_all2 (\<lambda>x y. order_data x = order_data y) xs ys"
    using "1.IH" by (auto simp: list_all_iff elim!: list.rel_mono_strong)
  then have "order_list xs = order_list ys" by (rule order_list_cong)
  then show ?case by simp
next
  case (2 d d')
  from "2.prems"(1) have len: "length d = length d'"
    and la: "list_all (\<lambda>(k, v). case map_of d' k of None \<Rightarrow> False | Some v' \<Rightarrow> same_data v v') d"
    by simp_all
  have same: "\<exists>v'. map_of d' k = Some v' \<and> same_data v v'" if "(k, v) \<in> set d" for k v
  proof -
    from la that have "case map_of d' k of None \<Rightarrow> False | Some v' \<Rightarrow> same_data v v'"
      by (auto simp: list_all_iff)
    then show ?thesis by (cases "map_of d' k") simp_all
  qed
  from "2.prems" have dd: "distinct (map fst d)" and dd': "distinct (map fst d')"
    and sd: "list_all (\<lambda>(k, v). is_str k \<and> str_keys v) d"
    and sd': "list_all (\<lambda>(k, v). is_str k \<and> str_keys v) d'"
    by simp_all
  from order_data_str(3) [of d] sd obtain e where e: "order_values d = Inr e" "list_all2 ordered_item d e"
    by blast
  from order_data_str(3) [of d'] sd' obtain e' where e': "order_values d' = Inr e'" "list_all2 ordered_item d' e'"
    by blast
  note r = order_values_rel [OF e(1)] and r' = order_values_rel [OF e'(1)]
  have sub: "set e \<subseteq> set e'"
  proof
    fix x assume x: "x \<in> set e"
    obtain k w where kw: "x = (k, w)" by (cases x)
    from order_values_source [OF r] x kw obtain v where v: "(k, v) \<in> set d" "order_data v = Inr w"
      by blast
    from same [OF v(1)] obtain v' where v': "map_of d' k = Some v'" "same_data v v'" by blast
    from v'(1) have m': "(k, v') \<in> set d'" by (rule map_of_SomeD)
    have "str_keys v" "str_keys v'" using sd sd' v(1) m' by (auto simp: list_all_iff)
    with "2.IH" [OF v(1) refl v'(1)] v'(2) have "order_data v = order_data v'" by simp
    with v(2) have "order_data v' = Inr w" by simp
    from order_values_target [OF r' m' this] show "x \<in> set e'" by (simp add: kw)
  qed
  have ke: "map fst e = map fst d" and ke': "map fst e' = map fst d'"
    using r r' by (auto dest: order_values_keys)
  have de: "distinct e" "distinct e'"
    using dd dd' ke ke' by (metis distinct_map)+
  have "length e = length e'" using ke ke' len by (metis length_map)
  with de have "card (set e) = card (set e')" by (simp add: distinct_card)
  with sub have "set e = set e'" by (simp add: card_subset_eq)
  with de have ms: "mset e = mset e'" by (simp add: set_eq_iff_mset_eq_distinct)
  have strs: "list_all (\<lambda>(k, v). is_str k) e"
  proof -
    have "list_all is_str (map fst e)" using sd ke by (simp add: list_all_iff case_prod_beta)
    then show ?thesis by (simp add: list_all_iff case_prod_beta)
  qed
  have "distinct (map key_of e)" using strs dd ke by (intro distinct_key_of) simp_all
  with ms have "sort_key key_of e = sort_key key_of e'" by (rule sort_key_mset_unique)
  moreover have "order_data (PDict d) = Inr (PDict (sort_key key_of e))"
    using order_dict_str [OF e dd] sd by (simp add: list_all_iff case_prod_beta)
  moreover have "order_data (PDict d') = Inr (PDict (sort_key key_of e'))"
    using order_dict_str [OF e' dd'] sd' by (simp add: list_all_iff case_prod_beta)
  ultimately show ?case by simp
qed simp_all

text \<open>
  C6. On decoded JSON (string keys) \<^verbatim>\<open>order_data\<close> returns a result in which the keys of
  every mapping, at every depth, are in increasing order, and which is the same data up
  to the order of the items of mappings. The result of a list has the same length and
  holds at each position the ordered version of the element at that position. A value
  that is neither a mapping nor a list is returned unchanged.
\<close>

theorem order_data_sorts_keys:
  "(str_keys v \<longrightarrow> (\<exists>r. order_data v = Inr r \<and> keys_sorted r \<and> same_data v r)) \<and>
   (order_data (PList xs) = Inr r' \<longrightarrow>
      (\<exists>ys. r' = PList ys \<and> length ys = length xs \<and>
            (\<forall>i < length xs. order_data (xs ! i) = Inr (ys ! i)))) \<and>
   (py_type v \<noteq> ''dict'' \<and> py_type v \<noteq> ''list'' \<longrightarrow> order_data v = Inr v)"
proof (intro conjI impI)
  assume "str_keys v"
  with order_data_str(1) [of v]
  show "\<exists>r. order_data v = Inr r \<and> keys_sorted r \<and> same_data v r" by blast
next
  assume "order_data (PList xs) = Inr r'"
  then obtain ys where ys: "order_list xs = Inr ys" "r' = PList ys"
    by (auto split: sum.splits)
  from order_list_nth [OF ys(1)] ys(2)
  show "\<exists>ys. r' = PList ys \<and> length ys = length xs \<and>
            (\<forall>i < length xs. order_data (xs ! i) = Inr (ys ! i))" by simp
next
  assume "py_type v \<noteq> ''dict'' \<and> py_type v \<noteq> ''list''"
  then show "order_data v = Inr v" by (cases v) simp_all
qed

text \<open>
  An action with a nested filter: the keys are sorted at both depths (upper case before
  lower case), the list and the tuple keep their order.
\<close>

theorem order_data_sorts_keys_witness:
  "order_data (PDict [(PStr ''name'', PStr ''cpu''),
                      (PStr ''filter'', PDict [(PStr ''b'', PList [PInt 2, PInt 1]), (PStr ''a'', PNone)]),
                      (PStr ''Zone'', PTuple [PInt 2, PInt 1])])
   = Inr (PDict [(PStr ''Zone'', PTuple [PInt 2, PInt 1]),
                 (PStr ''filter'', PDict [(PStr ''a'', PNone), (PStr ''b'', PList [PInt 2, PInt 1])]),
                 (PStr ''name'', PStr ''cpu'')]) \<and>
   keys_sorted (PDict [(PStr ''Zone'', PTuple [PInt 2, PInt 1]),
                 (PStr ''filter'', PDict [(PStr ''a'', PNone), (PStr ''b'', PList [PInt 2, PInt 1])]),
                 (PStr ''name'', PStr ''cpu'')]) \<and>
   order_data (PList [PInt 2, PInt 1]) = Inr (PList [PInt 2, PInt 1]) \<and>
   order_data (PTuple [PInt 2, PInt 1]) = Inr (PTuple [PInt 2, PInt 1])"
proof -
  let ?v = "PDict [(PStr ''name'', PStr ''cpu''),
                      (PStr ''filter'', PDict [(PStr ''b'', PList [PInt 2, PInt 1]), (PStr ''a'', PNone)]),
                      (PStr ''Zone'', PTuple [PInt 2, PInt 1])]"
  let ?r = "PDict [(PStr ''Zone'', PTuple [PInt 2, PInt 1]),
                 (PStr ''filter'', PDict [(PStr ''a'', PNone), (PStr ''b'', PList [PInt 2, PInt 1])]),
                 (PStr ''name'', PStr ''cpu'')]"
  have ev: "order_data ?v = Inr ?r" by code_simp
  have sk: "str_keys ?v" by simp
  have el: "order_data (PList [PInt 2, PInt 1]) = Inr (PList [PInt 2, PInt 1])" by simp
  have ty: "py_type (PTuple [PInt 2, PInt 1]) \<noteq> ''dict'' \<and> py_type (PTuple [PInt 2, PInt 1]) \<noteq> ''list''"
    by simp
  from order_data_sorts_keys [of ?v, THEN conjunct1, THEN mp, OF sk] ev
  have "keys_sorted ?r" by auto
  moreover note el
  moreover from order_data_sorts_keys [of "PTuple [PInt 2, PInt 1]", THEN conjunct2, THEN conjunct2,
      THEN mp, OF ty]
  have "order_data (PTuple [PInt 2, PInt 1]) = Inr (PTuple [PInt 2, PInt 1])" .
  ultimately show ?thesis using ev by blast
qed

text \<open>
  C4. Two inputs of decoded JSON that are the same data up to the order of the keys of
  their mappings are ordered to the same value, and \<^verbatim>\<open>dumps_json\<close> gives the same outcome
  and the same files, byte for byte, for both, with and without \<open>save_yaml\<close>.
\<close>

theorem dumps_json_deterministic:
  "list_all2 same_data data1 data2 \<and> list_all str_keys data1 \<and> list_all str_keys data2 \<longrightarrow>
     order_list data1 = order_list data2 \<and>
     dumps_json L folder data1 key save_yaml s = dumps_json L folder data2 key save_yaml s"
proof
  assume a: "list_all2 same_data data1 data2 \<and> list_all str_keys data1 \<and> list_all str_keys data2"
  then have "list_all2 (\<lambda>x y. order_data x = order_data y) data1 data2"
    by (auto simp: list_all_iff intro: same_data_order elim!: list.rel_mono_strong)
  then have "order_list data1 = order_list data2" by (rule order_list_cong)
  then show "order_list data1 = order_list data2 \<and>
     dumps_json L folder data1 key save_yaml s = dumps_json L folder data2 key save_yaml s"
    by (simp add: dumps_json_def)
qed

text \<open>One action given with its keys in two different orders, at both depths.\<close>

theorem dumps_json_deterministic_witness:
  "dumps_json \<lparr>json_dumps = \<lambda>v. Inr (if v = PDict [(PStr ''filter'', PDict [(PStr ''a'', PInt 1), (PStr ''b'', PInt 2)]),
                                                    (PStr ''name'', PStr ''cpu'')] then ''sorted'' else ''other''),
                anymarkup_parse = \<lambda>t. Inr PNone, yaml_dump = \<lambda>v. Inr [], prettyxml = Inr\<rparr>
      ''actions''
      [PDict [(PStr ''name'', PStr ''cpu''), (PStr ''filter'', PDict [(PStr ''b'', PInt 2), (PStr ''a'', PInt 1)])]]
      ''name'' False \<lparr>dirs = {}, files = Map.empty\<rparr>
   = dumps_json \<lparr>json_dumps = \<lambda>v. Inr (if v = PDict [(PStr ''filter'', PDict [(PStr ''a'', PInt 1), (PStr ''b'', PInt 2)]),
                                                    (PStr ''name'', PStr ''cpu'')] then ''sorted'' else ''other''),
                anymarkup_parse = \<lambda>t. Inr PNone, yaml_dump = \<lambda>v. Inr [], prettyxml = Inr\<rparr>
      ''actions''
      [PDict [(PStr ''filter'', PDict [(PStr ''a'', PInt 1), (PStr ''b'', PInt 2)]), (PStr ''name'', PStr ''cpu'')]]
      ''name'' False \<lparr>dirs = {}, files = Map.empty\<rparr>"
proof -
  have h: "list_all2 same_data
      [PDict [(PStr ''name'', PStr ''cpu''), (PStr ''filter'', PDict [(PStr ''b'', PInt 2), (PStr ''a'', PInt 1)])]]
      [PDict [(PStr ''filter'', PDict [(PStr ''a'', PInt 1), (PStr ''b'', PInt 2)]), (PStr ''name'', PStr ''cpu'')]] \<and>
    list_all str_keys
      [PDict [(PStr ''name'', PStr ''cpu''), (PStr ''filter'', PDict [(PStr ''b'', PInt 2), (PStr ''a'', PInt 1)])]] \<and>
    list_all str_keys
      [PDict [(PStr ''filter'', PDict [(PStr ''a'', PInt 1), (PStr ''b'', PInt 2)]), (PStr ''name'', PStr ''cpu'')]]"
    by simp
  from dumps_json_deterministic [THEN mp, OF h, THEN conjunct2] show ?thesis .
qed

subsection \<open>Writing the files\<close>

lemma py_eq_str: "py_eq k (PStr s) \<longleftrightarrow> k = PStr s"
  by (cases k) (auto simp: py_eq_def)

lemma dict_get_str: "dict_get d (PStr key) = map_of d (PStr key)"
proof (induction d)
  case Nil
  show ?case by simp
next
  case (Cons p d)
  obtain k v where p: "p = (k, v)" by (cases p)
  show ?case using Cons by (auto simp: p py_eq_str)
qed

lemma same_data_str: "same_data (PStr n) v \<Longrightarrow> v = PStr n"
  by simp

lemma getitem_ordered:
  assumes "str_keys item" "order_data item = Inr ordered" "getitem item key = Inr (PStr n)"
  shows "getitem ordered key = Inr (PStr n)"
proof -
  from assms(3) obtain d where d: "item = PDict d" by (cases item) auto
  from assms(3) d have "map_of d (PStr key) = Some (PStr n)"
    by (auto simp: dict_get_str split: option.splits)
  then have m: "(PStr key, PStr n) \<in> set d" by (rule map_of_SomeD)
  from order_data_str(1) [of item] assms(1,2) have sd: "same_data item ordered" by auto
  with d obtain s where s: "ordered = PDict s" by (cases ordered) auto
  from sd d s m have "case map_of s (PStr key) of None \<Rightarrow> False | Some v' \<Rightarrow> same_data (PStr n) v'"
    by (auto simp: list_all_iff)
  then have "map_of s (PStr key) = Some (PStr n)"
    by (cases "map_of s (PStr key)") simp_all
  then show ?thesis by (simp add: s dict_get_str)
qed

lemma file_path_not_folder: "file_path folder name ext \<noteq> folder"
  by (simp add: file_path_def)

lemma write_file_ok:
  "folder \<in> dirs s \<Longrightarrow> p \<notin> dirs s \<Longrightarrow>
   write_file folder p txt s = (Inr (), s\<lparr>files := (files s)(p \<mapsto> txt)\<rparr>)"
  by (simp add: write_file_def)

lemma ensure_folder_dirs:
  "folder \<in> dirs s \<or> \<not> path_exists s folder \<Longrightarrow>
   ensure_folder folder s = s\<lparr>dirs := insert folder (dirs s)\<rparr>"
  by (auto simp: ensure_folder_def makedirs_def path_exists_def insert_absorb)

lemma write_item_ok:
  assumes "json_dumps L item = Inr t" "getitem item key = Inr (PStr n)"
    "(if save_yaml then convert_to_object_without_none L t else Inr t) = Inr c"
    "folder \<in> dirs s" "file_path folder (sanitize_name n) (extension save_yaml ''json'') \<notin> dirs s"
  shows "write_item L folder key save_yaml item s =
     (Inr (), s\<lparr>files := (files s)(file_path folder (sanitize_name n) (extension save_yaml ''json'') \<mapsto> c)\<rparr>)"
  using assms by (auto simp: write_item_def write_file_def extension_def split: if_splits)

lemma dump_xml_ok:
  assumes "prettyxml L (sub_date doc) = Inr x"
    "(if save_yaml then convert_to_object_without_none L (replace_quot x) else Inr (replace_quot x)) = Inr c"
    "folder \<in> dirs s \<or> \<not> path_exists s folder"
    "file_path folder (sanitize_name n) (extension save_yaml ''xml'') \<notin> dirs s"
  shows "dump_xml L folder doc n save_yaml s =
     (Inr (), s\<lparr>dirs := insert folder (dirs s),
               files := (files s)(file_path folder (sanitize_name n) (extension save_yaml ''xml'') \<mapsto> c)\<rparr>)"
  using assms(1,2,4) ensure_folder_dirs [OF assms(3)] file_path_not_folder
  by (auto simp: dump_xml_def write_file_def extension_def Let_def split: if_splits)

lemma template_names:
  "sanitize_name ''Template A'' = ''Template A''" "sanitize_name ''Template/A'' = ''Template A''"
  by code_simp+

text \<open>
  C5. \<^verbatim>\<open>Template A\<close> and \<^verbatim>\<open>Template/A\<close> both sanitize to \<^verbatim>\<open>Template A\<close>. When a category
  holds two items with these names, in this order, and both are processed without
  error, the run leaves the folder with one file for the two, \<^verbatim>\<open>Template A\<close> with the
  extension of the output format, and its content is that of the second item: the files
  after the run are the files before it with that single path set. This holds for the
  structured-data path (\<^verbatim>\<open>dumps_json\<close> on the two items) and for the markup path (the
  export loop calling \<^verbatim>\<open>dump_xml\<close> twice), with and without \<open>save_yaml\<close>.
\<close>

theorem colliding_names_one_file:
  "sanitize_name ''Template A'' = ''Template A'' \<and> sanitize_name ''Template/A'' = ''Template A'' \<and>
   (str_keys i1 \<and> str_keys i2 \<and>
    getitem i1 key = Inr (PStr ''Template A'') \<and> getitem i2 key = Inr (PStr ''Template/A'') \<and>
    order_data i1 = Inr o1 \<and> order_data i2 = Inr o2 \<and>
    json_dumps L o1 = Inr t1 \<and> json_dumps L o2 = Inr t2 \<and>
    (if save_yaml then convert_to_object_without_none L t1 else Inr t1) = Inr c1 \<and>
    (if save_yaml then convert_to_object_without_none L t2 else Inr t2) = Inr c2 \<and>
    (folder \<in> dirs s \<or> \<not> path_exists s folder) \<and>
    file_path folder ''Template A'' (extension save_yaml ''json'') \<notin> dirs s \<longrightarrow>
      dumps_json L folder [i1, i2] key save_yaml s =
        (Inr (), s\<lparr>dirs := insert folder (dirs s),
                  files := (files s)(file_path folder ''Template A'' (extension save_yaml ''json'') \<mapsto> c2)\<rparr>)) \<and>
   (prettyxml L (sub_date doc1) = Inr x1 \<and> prettyxml L (sub_date doc2) = Inr x2 \<and>
    (if save_yaml then convert_to_object_without_none L (replace_quot x1) else Inr (replace_quot x1)) = Inr c1 \<and>
    (if save_yaml then convert_to_object_without_none L (replace_quot x2) else Inr (replace_quot x2)) = Inr c2 \<and>
    (folder \<in> dirs s \<or> \<not> path_exists s folder) \<and>
    file_path folder ''Template A'' (extension save_yaml ''xml'') \<notin> dirs s \<longrightarrow>
      export L folder [(''Template A'', doc1), (''Template/A'', doc2)] save_yaml s =
        (Inr (), s\<lparr>dirs := insert folder (dirs s),
                  files := (files s)(file_path folder ''Template A'' (extension save_yaml ''xml'') \<mapsto> c2)\<rparr>))"
proof (intro conjI impI)
  show "sanitize_name ''Template A'' = ''Template A''" by (rule template_names)
  show "sanitize_name ''Template/A'' = ''Template A''" by (rule template_names)
next
  let ?p = "file_path folder ''Template A'' (extension save_yaml ''json'')"
  assume a: "str_keys i1 \<and> str_keys i2 \<and>
    getitem i1 key = Inr (PStr ''Template A'') \<and> getitem i2 key = Inr (PStr ''Template/A'') \<and>
    order_data i1 = Inr o1 \<and> order_data i2 = Inr o2 \<and>
    json_dumps L o1 = Inr t1 \<and> json_dumps L o2 = Inr t2 \<and>
    (if save_yaml then convert_to_object_without_none L t1 else Inr t1) = Inr c1 \<and>
    (if save_yaml then convert_to_object_without_none L t2 else Inr t2) = Inr c2 \<and>
    (folder \<in> dirs s \<or> \<not> path_exists s folder) \<and> ?p \<notin> dirs s"
  let ?s1 = "s\<lparr>dirs := insert folder (dirs s)\<rparr>"
  let ?s2 = "?s1\<lparr>files := (files ?s1)(?p \<mapsto> c1)\<rparr>"
  from a have ef: "ensure_folder folder s = ?s1" by (simp add: ensure_folder_dirs)
  from a have g1: "getitem o1 key = Inr (PStr ''Template A'')"
    and g2: "getitem o2 key = Inr (PStr ''Template/A'')"
    using getitem_ordered by blast+
  have nd: "?p \<notin> dirs ?s1" "?p \<notin> dirs ?s2" using a file_path_not_folder by auto
  have w1: "write_item L folder key save_yaml o1 ?s1 = (Inr (), ?s2)"
    using write_item_ok [of L o1 t1 key "''Template A''" save_yaml c1 folder ?s1] a g1 nd(1)
    by (simp only: template_names) simp
  have w2: "write_item L folder key save_yaml o2 ?s2 =
      (Inr (), ?s2\<lparr>files := (files ?s2)(?p \<mapsto> c2)\<rparr>)"
    using write_item_ok [of L o2 t2 key "''Template/A''" save_yaml c2 folder ?s2] a g2 nd(2)
    by (simp only: template_names) simp
  have ol: "order_list [i1, i2] = Inr [o1, o2]" using a by simp
  show "dumps_json L folder [i1, i2] key save_yaml s =
        (Inr (), s\<lparr>dirs := insert folder (dirs s), files := (files s)(?p \<mapsto> c2)\<rparr>)"
    using w1 w2 by (simp add: dumps_json_def ef ol del: order_list.simps)
next
  let ?p = "file_path folder ''Template A'' (extension save_yaml ''xml'')"
  assume a: "prettyxml L (sub_date doc1) = Inr x1 \<and> prettyxml L (sub_date doc2) = Inr x2 \<and>
    (if save_yaml then convert_to_object_without_none L (replace_quot x1) else Inr (replace_quot x1)) = Inr c1 \<and>
    (if save_yaml then convert_to_object_without_none L (replace_quot x2) else Inr (replace_quot x2)) = Inr c2 \<and>
    (folder \<in> dirs s \<or> \<not> path_exists s folder) \<and> ?p \<notin> dirs s"
  let ?s1 = "s\<lparr>dirs := insert folder (dirs s), files := (files s)(?p \<mapsto> c1)\<rparr>"
  have d1: "dump_xml L folder doc1 ''Template A'' save_yaml s = (Inr (), ?s1)"
    using dump_xml_ok [of L doc1 x1 save_yaml c1 folder s "''Template A''"] a
    by (simp only: template_names) simp
  have d2: "dump_xml L folder doc2 ''Template/A'' save_yaml ?s1 =
      (Inr (), ?s1\<lparr>dirs := insert folder (dirs ?s1), files := (files ?s1)(?p \<mapsto> c2)\<rparr>)"
    using dump_xml_ok [of L doc2 x2 save_yaml c2 folder ?s1 "''Template/A''"] a file_path_not_folder
    by (simp only: template_names) simp
  show "export L folder [(''Template A'', doc1), (''Template/A'', doc2)] save_yaml s =
        (Inr (), s\<lparr>dirs := insert folder (dirs s), files := (files s)(?p \<mapsto> c2)\<rparr>)"
    using d1 d2 by simp
qed

lemma order_list_append:
  "order_list (xs @ ys) =
     (case order_list xs of
        Inl e \<Rightarrow> Inl e
      | Inr xs' \<Rightarrow> (case order_list ys of Inl e \<Rightarrow> Inl e | Inr ys' \<Rightarrow> Inr (xs' @ ys')))"
  by (induction xs) (auto split: sum.splits)

lemma write_items_append:
  "write_items L folder key save_yaml (xs @ ys) s =
     (case write_items L folder key save_yaml xs s of
        (Inl e, s') \<Rightarrow> (Inl e, s')
      | (Inr u, s') \<Rightarrow> write_items L folder key save_yaml ys s')"
  by (induction xs arbitrary: s) (auto split: sum.splits prod.splits)

lemma set_insort_item: "set (insort_item x ys) = insert x (set ys)"
  by (induction ys) auto

lemma set_foldr_insort_item: "set (foldr insort_item e []) = set e"
  by (induction e) (simp_all add: set_insort_item)

lemma order_data_dict_keys:
  assumes "order_data (PDict d) = Inr r"
  shows "\<exists>s. r = PDict s \<and> fst ` set s = fst ` set d"
proof -
  from assms obtain e s where e: "order_values d = Inr e" "sorted_items e = Inr s" "r = PDict s"
    by (auto split: sum.splits)
  from e(2) have "set s = set e"
    by (auto simp: sorted_items_def set_foldr_insort_item split: if_splits)
  moreover have "map fst e = map fst d"
    using order_values_rel [OF e(1)] by (rule order_values_keys)
  then have "fst ` set e = fst ` set d" by (metis set_map)
  ultimately show ?thesis using e(3) by simp
qed

lemma getitem_missing:
  assumes "order_data (PDict d) = Inr r" "dict_get d (PStr key) = None"
  shows "getitem r key = Inl (KeyError (PStr key))"
proof -
  from order_data_dict_keys [OF assms(1)] obtain s where s: "r = PDict s" "fst ` set s = fst ` set d"
    by blast
  from assms(2) have "PStr key \<notin> fst ` set d" by (simp add: dict_get_str map_of_eq_None_iff)
  with s(2) have "map_of s (PStr key) = None" by (simp add: map_of_eq_None_iff)
  then show ?thesis by (simp add: s(1) dict_get_str)
qed

lemma write_file_keeps:
  "write_file folder p txt s = (r, s') \<Longrightarrow> path_exists s q \<Longrightarrow> path_exists s' q"
  by (auto simp: write_file_def path_exists_def split: if_splits)

lemma write_item_keeps:
  "write_item L folder key save_yaml item s = (r, s') \<Longrightarrow> path_exists s q \<Longrightarrow> path_exists s' q"
  by (auto simp: write_item_def Let_def split: sum.splits dest: write_file_keeps)

lemma write_items_keeps:
  "write_items L folder key save_yaml items s = (r, s') \<Longrightarrow> path_exists s q \<Longrightarrow> path_exists s' q"
proof (induction items arbitrary: s)
  case Nil
  then show ?case by simp
next
  case (Cons item items)
  obtain r1 s1 where w: "write_item L folder key save_yaml item s = (r1, s1)"
    by (cases "write_item L folder key save_yaml item s")
  from write_item_keeps [OF w Cons.prems(2)] have p1: "path_exists s1 q" .
  show ?case
  proof (cases r1)
    case (Inl e)
    with Cons.prems(1) w p1 show ?thesis by simp
  next
    case (Inr u)
    with Cons.prems(1) w have "write_items L folder key save_yaml items s1 = (r, s')" by simp
    from Cons.IH [OF this p1] show ?thesis .
  qed
qed

lemma ensure_folder_exists: "path_exists (ensure_folder folder s) folder"
  by (simp add: ensure_folder_def makedirs_def path_exists_def)

lemma dumps_json_folder_exists:
  "dumps_json L folder data key save_yaml s = (r, s') \<Longrightarrow> path_exists s' folder"
  using ensure_folder_exists [of folder s]
  by (auto simp: dumps_json_def Let_def split: sum.splits dest: write_items_keeps)

text \<open>
  C9. Let the items of \<open>data\<close> be ordered without error, let the items before some item
  be written without error, leaving the file system \<open>s'\<close>, and let that item be a
  mapping without the name-field key. Then \<^verbatim>\<open>dumps_json\<close> raises an error at that item:
  \<^verbatim>\<open>KeyError\<close> for the key, unless \<^verbatim>\<open>json.dumps\<close>, called first, already raised on it. Nothing
  is rolled back: the file system is \<open>s'\<close>, with the files of the preceding items, and
  the folder exists.
\<close>

theorem missing_name_key_no_rollback:
  "order_list (pre @ PDict d # post) = Inr ordered \<and> dict_get d (PStr key) = None \<and>
   dumps_json L folder pre key save_yaml s = (Inr (), s') \<longrightarrow>
     (\<exists>e. dumps_json L folder (pre @ PDict d # post) key save_yaml s = (Inl e, s') \<and>
          (e = KeyError (PStr key) \<or>
           (\<exists>bad. order_data (PDict d) = Inr bad \<and> json_dumps L bad = Inl e))) \<and>
     path_exists s' folder"
proof
  assume a: "order_list (pre @ PDict d # post) = Inr ordered \<and> dict_get d (PStr key) = None \<and>
   dumps_json L folder pre key save_yaml s = (Inr (), s')"
  then obtain pre' bad post' where o: "order_list pre = Inr pre'" "order_data (PDict d) = Inr bad"
    "order_list post = Inr post'" "ordered = pre' @ bad # post'"
    by (auto simp: order_list_append split: sum.splits)
  let ?s1 = "ensure_folder folder s"
  from a o(1) have wp: "write_items L folder key save_yaml pre' ?s1 = (Inr (), s')"
    by (simp add: dumps_json_def Let_def)
  from a o(2) have gi: "getitem bad key = Inl (KeyError (PStr key))"
    using getitem_missing by blast
  have wi: "\<exists>e. write_item L folder key save_yaml bad s' = (Inl e, s') \<and>
      (e = KeyError (PStr key) \<or> json_dumps L bad = Inl e)"
    using gi by (cases "json_dumps L bad") (simp_all add: write_item_def)
  then obtain e where e: "write_item L folder key save_yaml bad s' = (Inl e, s')"
    "e = KeyError (PStr key) \<or> json_dumps L bad = Inl e" by blast
  have "dumps_json L folder (pre @ PDict d # post) key save_yaml s =
      write_items L folder key save_yaml (pre' @ bad # post') ?s1"
    using a o(4) by (simp add: dumps_json_def Let_def)
  also have "\<dots> = (Inl e, s')"
    using wp e(1) by (simp add: write_items_append)
  finally have "dumps_json L folder (pre @ PDict d # post) key save_yaml s = (Inl e, s')" .
  moreover from a have "path_exists s' folder" using dumps_json_folder_exists by blast
  ultimately show "(\<exists>e. dumps_json L folder (pre @ PDict d # post) key save_yaml s = (Inl e, s') \<and>
          (e = KeyError (PStr key) \<or>
           (\<exists>bad. order_data (PDict d) = Inr bad \<and> json_dumps L bad = Inl e))) \<and>
     path_exists s' folder"
    using e(2) o(2) by blast
qed

text \<open>Two templates written into an empty working directory, on each path.\<close>

theorem colliding_names_one_file_witness:
  "dumps_json sample_libs ''templates''
     [PDict [(PStr ''name'', PStr ''Template A''), (PStr ''id'', PInt 1)],
      PDict [(PStr ''name'', PStr ''Template/A''), (PStr ''id'', PInt 2)]]
     ''name'' False \<lparr>dirs = {}, files = Map.empty\<rparr>
   = (Inr (), \<lparr>dirs = {''templates''}, files = [''templates/Template A.json'' \<mapsto> ''two'']\<rparr>) \<and>
   export sample_libs ''templates'' [(''Template A'', ''<a/>''), (''Template/A'', ''<b/>'')] False
     \<lparr>dirs = {}, files = Map.empty\<rparr>
   = (Inr (), \<lparr>dirs = {''templates''}, files = [''templates/Template A.xml'' \<mapsto> ''<b/>'']\<rparr>)"
proof -
  let ?i1 = "PDict [(PStr ''name'', PStr ''Template A''), (PStr ''id'', PInt 1)]"
  let ?i2 = "PDict [(PStr ''name'', PStr ''Template/A''), (PStr ''id'', PInt 2)]"
  let ?o1 = "PDict [(PStr ''id'', PInt 1), (PStr ''name'', PStr ''Template A'')]"
  let ?o2 = "PDict [(PStr ''id'', PInt 2), (PStr ''name'', PStr ''Template/A'')]"
  let ?s = "\<lparr>dirs = {}, files = Map.empty\<rparr>"
  have o: "order_data ?i1 = Inr ?o1" "order_data ?i2 = Inr ?o2" by code_simp+
  have j: "json_dumps sample_libs ?o1 = Inr ''one''" "json_dumps sample_libs ?o2 = Inr ''two''"
    by (simp_all add: sample_libs_def py_eq_def)
  have h1: "str_keys ?i1 \<and> str_keys ?i2 \<and>
    getitem ?i1 ''name'' = Inr (PStr ''Template A'') \<and> getitem ?i2 ''name'' = Inr (PStr ''Template/A'') \<and>
    order_data ?i1 = Inr ?o1 \<and> order_data ?i2 = Inr ?o2 \<and>
    json_dumps sample_libs ?o1 = Inr ''one'' \<and> json_dumps sample_libs ?o2 = Inr ''two'' \<and>
    (if False then convert_to_object_without_none sample_libs ''one'' else Inr ''one'') = Inr ''one'' \<and>
    (if False then convert_to_object_without_none sample_libs ''two'' else Inr ''two'') = Inr ''two'' \<and>
    (''templates'' \<in> dirs ?s \<or> \<not> path_exists ?s ''templates'') \<and>
    file_path ''templates'' ''Template A'' (extension False ''json'') \<notin> dirs ?s"
    unfolding o j by (simp add: py_eq_def path_exists_def)
  have sd: "sub_date ''<a/>'' = ''<a/>''" "sub_date ''<b/>'' = ''<b/>''" by code_simp+
  have rq: "replace_quot ''<a/>'' = ''<a/>''" "replace_quot ''<b/>'' = ''<b/>''" by code_simp+
  have h2: "prettyxml sample_libs (sub_date ''<a/>'') = Inr ''<a/>'' \<and>
    prettyxml sample_libs (sub_date ''<b/>'') = Inr ''<b/>'' \<and>
    (if False then convert_to_object_without_none sample_libs (replace_quot ''<a/>'')
     else Inr (replace_quot ''<a/>'')) = Inr ''<a/>'' \<and>
    (if False then convert_to_object_without_none sample_libs (replace_quot ''<b/>'')
     else Inr (replace_quot ''<b/>'')) = Inr ''<b/>'' \<and>
    (''templates'' \<in> dirs ?s \<or> \<not> path_exists ?s ''templates'') \<and>
    file_path ''templates'' ''Template A'' (extension False ''xml'') \<notin> dirs ?s"
    unfolding sd rq by (simp add: sample_libs_def path_exists_def)
  note t = colliding_names_one_file [THEN conjunct2, THEN conjunct2]
  from t [THEN conjunct1, THEN mp, OF h1] t [THEN conjunct2, THEN mp, OF h2]
  show ?thesis by (simp add: file_path_def extension_def)
qed

text \<open>Three actions, the second without a name: the first file is there, the third is not.\<close>

theorem missing_name_key_no_rollback_witness:
  "dumps_json sample_libs ''actions''
     [PDict [(PStr ''name'', PStr ''first''), (PStr ''id'', PInt 1)],
      PDict [(PStr ''id'', PInt 2)],
      PDict [(PStr ''name'', PStr ''third''), (PStr ''id'', PInt 3)]]
     ''name'' False \<lparr>dirs = {}, files = Map.empty\<rparr>
   = (Inl (KeyError (PStr ''name'')),
      \<lparr>dirs = {''actions''}, files = [''actions/first.json'' \<mapsto> ''one'']\<rparr>)"
proof -
  let ?pre = "[PDict [(PStr ''name'', PStr ''first''), (PStr ''id'', PInt 1)]]"
  let ?post = "[PDict [(PStr ''name'', PStr ''third''), (PStr ''id'', PInt 3)]]"
  let ?s = "\<lparr>dirs = {}, files = Map.empty\<rparr>"
  let ?s' = "\<lparr>dirs = {''actions''}, files = [''actions/first.json'' \<mapsto> ''one'']\<rparr>"
  have ol: "order_list (?pre @ PDict [(PStr ''id'', PInt 2)] # ?post) =
      Inr [PDict [(PStr ''id'', PInt 1), (PStr ''name'', PStr ''first'')],
           PDict [(PStr ''id'', PInt 2)],
           PDict [(PStr ''id'', PInt 3), (PStr ''name'', PStr ''third'')]]"
    by code_simp
  have op: "order_list ?pre = Inr [PDict [(PStr ''id'', PInt 1), (PStr ''name'', PStr ''first'')]]"
    by code_simp
  have dp: "dumps_json sample_libs ''actions'' ?pre ''name'' False ?s = (Inr (), ?s')"
    unfolding dumps_json_def op
    by (simp add: write_item_def sample_libs_def py_eq_def special_def write_file_def file_path_def
        ensure_folder_def path_exists_def makedirs_def)
  have ob: "order_data (PDict [(PStr ''id'', PInt 2)]) = Inr (PDict [(PStr ''id'', PInt 2)])"
    by code_simp
  have h: "order_list (?pre @ PDict [(PStr ''id'', PInt 2)] # ?post) =
      Inr [PDict [(PStr ''id'', PInt 1), (PStr ''name'', PStr ''first'')],
           PDict [(PStr ''id'', PInt 2)],
           PDict [(PStr ''id'', PInt 3), (PStr ''name'', PStr ''third'')]] \<and>
      dict_get [(PStr ''id'', PInt 2)] (PStr ''name'') = None \<and>
      dumps_json sample_libs ''actions'' ?pre ''name'' False ?s = (Inr (), ?s')"
    using ol dp by (simp add: py_eq_def)
  from missing_name_key_no_rollback [THEN mp, OF h, THEN conjunct1]
  obtain e where e: "dumps_json sample_libs ''actions'' (?pre @ PDict [(PStr ''id'', PInt 2)] # ?post)
        ''name'' False ?s = (Inl e, ?s')"
    "e = KeyError (PStr ''name'') \<or>
     (\<exists>bad. order_data (PDict [(PStr ''id'', PInt 2)]) = Inr bad \<and> json_dumps sample_libs bad = Inl e)"
    by blast
  from e(2) have "e = KeyError (PStr ''name'')"
    unfolding ob by (auto simp: sample_libs_def py_eq_def)
  with e(1) show ?thesis by simp
qed

subsection \<open>Timestamp stripping\<close>

lemma tags_no_newline [simp]: "newline \<notin> set open_tag" "newline \<notin> set close_tag"
  by (simp_all add: open_tag_def close_tag_def newline_def)

lemma tags_nonempty [simp]: "open_tag \<noteq> []" "close_tag \<noteq> []"
  by (simp_all add: open_tag_def close_tag_def)

lemma backtrack_Some:
  "backtrack s n = Some j \<Longrightarrow>
   j \<le> n \<and> prefix close_tag (drop j s) \<and> (\<forall>j'. j < j' \<and> j' \<le> n \<longrightarrow> \<not> prefix close_tag (drop j' s))"
proof (induction n)
  case 0
  then show ?case by (auto split: if_splits)
next
  case (Suc n)
  show ?case
  proof (cases "prefix close_tag (drop (Suc n) s)")
    case True
    with Suc.prems show ?thesis by auto
  next
    case False
    with Suc.prems have "backtrack s n = Some j" by simp
    from Suc.IH [OF this] False show ?thesis
      by (auto simp: le_Suc_eq)
  qed
qed

lemma backtrack_None:
  "backtrack s n = None \<Longrightarrow> j \<le> n \<Longrightarrow> \<not> prefix close_tag (drop j s)"
proof (induction n)
  case 0
  then show ?case by (auto split: if_splits)
next
  case (Suc n)
  then show ?case by (cases "j = Suc n") (auto split: if_splits)
qed

lemma takeWhile_append_all:
  "\<forall>c \<in> set xs. P c \<Longrightarrow> takeWhile P (xs @ ys) = xs @ takeWhile P ys"
  by (induction xs) auto

lemma take_takeWhile_no:
  "j \<le> length (takeWhile P s) \<Longrightarrow> \<forall>c \<in> set (take j s). P c"
proof (induction s arbitrary: j)
  case Nil
  then show ?case by simp
next
  case (Cons x s)
  then show ?case by (cases j) (auto split: if_splits)
qed

lemma match_date_complete:
  assumes "s = open_tag @ m @ close_tag @ b" "newline \<notin> set m"
  shows "match_date s \<noteq> None"
proof -
  let ?rest = "m @ close_tag @ b"
  have r: "drop (length open_tag) s = ?rest" using assms(1) by simp
  have "takeWhile (\<lambda>c. c \<noteq> newline) ?rest = m @ takeWhile (\<lambda>c. c \<noteq> newline) (close_tag @ b)"
    using assms(2) by (intro takeWhile_append_all) auto
  then have le: "length m \<le> length (takeWhile (\<lambda>c. c \<noteq> newline) ?rest)" by simp
  have pc: "prefix close_tag (drop (length m) ?rest)" by simp
  have "backtrack ?rest (length (takeWhile (\<lambda>c. c \<noteq> newline) ?rest)) \<noteq> None"
    using backtrack_None [OF _ le] pc by blast
  then show ?thesis using assms(1) r by (auto simp: match_date_def Let_def)
qed

lemma match_date_sound:
  assumes "match_date s = Some n"
  shows "\<exists>m. s = open_tag @ m @ close_tag @ drop n s \<and> newline \<notin> set m \<and> \<not> closes (drop n s)"
proof -
  from assms have po: "prefix open_tag s" by (auto simp: match_date_def split: if_splits)
  then obtain rest where s: "s = open_tag @ rest" by (auto simp: prefix_def)
  let ?n0 = "length (takeWhile (\<lambda>c. c \<noteq> newline) rest)"
  from assms s obtain j where j: "backtrack rest ?n0 = Some j" "n = length open_tag + j + length close_tag"
    by (auto simp: match_date_def Let_def split: option.splits)
  from backtrack_Some [OF j(1)] have jn: "j \<le> ?n0" and pc: "prefix close_tag (drop j rest)"
    and mx: "\<And>j'. j < j' \<Longrightarrow> j' \<le> ?n0 \<Longrightarrow> \<not> prefix close_tag (drop j' rest)" by auto
  let ?m = "take j rest"
  from pc obtain b where b: "drop j rest = close_tag @ b" by (auto simp: prefix_def)
  have rest: "rest = ?m @ close_tag @ b" using b by (metis append_take_drop_id)
  have nm: "newline \<notin> set ?m" using take_takeWhile_no [OF jn] by auto
  have lm: "length ?m = j" using jn
    by (metis length_take min.absorb2 le_trans length_takeWhile_le)
  have dn: "drop n s = b"
  proof -
    have "drop n s = drop (j + length close_tag) rest" using s j(2) by (simp add: add.assoc)
    also have "\<dots> = drop (length close_tag) (drop j rest)" by (simp add: add.commute)
    also have "\<dots> = b" using b by simp
    finally show ?thesis .
  qed
  have nc: "\<not> closes b"
  proof
    assume "closes b"
    then obtain a b2 where a: "b = a @ close_tag @ b2" "newline \<notin> set a" by (auto simp: closes_def)
    let ?pre = "?m @ close_tag @ a"
    have r2: "rest = ?pre @ close_tag @ b2" using rest a(1) by simp
    have "takeWhile (\<lambda>c. c \<noteq> newline) (?pre @ close_tag @ b2) =
        ?pre @ takeWhile (\<lambda>c. c \<noteq> newline) (close_tag @ b2)"
      using nm a(2) by (intro takeWhile_append_all) auto
    with r2 have "length ?pre \<le> ?n0" by (metis length_append le_add1)
    moreover have "j < length ?pre" using lm by (simp add: close_tag_def)
    moreover have "prefix close_tag (drop (length ?pre) rest)"
      by (subst r2) simp
    ultimately show False using mx by blast
  qed
  from s rest dn nm nc show ?thesis by auto
qed

lemma match_date_Some_iff:
  "match_date s \<noteq> None \<longleftrightarrow> (\<exists>m b. s = open_tag @ m @ close_tag @ b \<and> newline \<notin> set m)"
proof
  assume "match_date s \<noteq> None"
  then obtain n where "match_date s = Some n" by auto
  from match_date_sound [OF this] show "\<exists>m b. s = open_tag @ m @ close_tag @ b \<and> newline \<notin> set m"
    by blast
next
  assume "\<exists>m b. s = open_tag @ m @ close_tag @ b \<and> newline \<notin> set m"
  then show "match_date s \<noteq> None" using match_date_complete by blast
qed

lemma append_eq_cases:
  "xs @ ys = zs @ ts \<Longrightarrow> \<exists>us. xs = zs @ us \<and> us @ ys = ts \<or> xs @ us = zs \<and> ys = us @ ts"
  unfolding append_eq_append_conv2 by blast

lemma match_date_line:
  assumes "newline \<notin> set q" "match_date (q @ newline # x) \<noteq> None"
  shows "match_date (q @ newline # y) \<noteq> None"
proof -
  from assms(2) obtain m b where mb: "q @ newline # x = open_tag @ m @ close_tag @ b" "newline \<notin> set m"
    unfolding match_date_Some_iff by blast
  let ?t = "open_tag @ m @ close_tag"
  have nt: "newline \<notin> set ?t" using mb(2) by simp
  from mb(1) have "q @ newline # x = ?t @ b" by simp
  from append_eq_cases [OF this]
  obtain us where "q = ?t @ us \<and> us @ newline # x = b \<or> q @ us = ?t \<and> newline # x = us @ b"
    by blast
  then show ?thesis
  proof
    assume "q = ?t @ us \<and> us @ newline # x = b"
    then have "q @ newline # y = open_tag @ m @ close_tag @ (us @ newline # y)" by simp
    with mb(2) show ?thesis using match_date_complete by blast
  next
    assume c: "q @ us = ?t \<and> newline # x = us @ b"
    show ?thesis
    proof (cases us)
      case Nil
      with c have "q @ newline # y = open_tag @ m @ close_tag @ (newline # y)" by simp
      with mb(2) show ?thesis using match_date_complete by blast
    next
      case (Cons u us')
      with c have "u = newline" by simp
      with c Cons have "newline \<in> set ?t" by (metis in_set_conv_decomp)
      with nt show ?thesis by simp
    qed
  qed
qed

lemma no_match_after_drop:
  assumes v: "match_date v = Some n" and q: "newline \<notin> set q"
    and nm: "match_date (q @ v) = None"
  shows "match_date (q @ drop n v) = None"
proof (rule ccontr)
  assume "match_date (q @ drop n v) \<noteq> None"
  then obtain m' b' where mb: "q @ drop n v = open_tag @ m' @ close_tag @ b'" "newline \<notin> set m'"
    unfolding match_date_Some_iff by blast
  from match_date_sound [OF v] obtain m where m: "v = open_tag @ m @ close_tag @ drop n v"
    "newline \<notin> set m" "\<not> closes (drop n v)" by blast
  let ?w = "drop n v"
  from mb(1) have "q @ ?w = (open_tag @ m') @ (close_tag @ b')" by simp
  from append_eq_cases [OF this]
  obtain us where "q = (open_tag @ m') @ us \<and> us @ ?w = close_tag @ b' \<or>
      q @ us = open_tag @ m' \<and> ?w = us @ close_tag @ b'"
    by blast
  then show False
  proof
    assume c: "q @ us = open_tag @ m' \<and> ?w = us @ close_tag @ b'"
    then have "set us \<subseteq> set (open_tag @ m')" by (metis set_append Un_upper2)
    with mb(2) have "newline \<notin> set us" by auto
    with c have "closes ?w" by (auto simp: closes_def)
    with m(3) show False by simp
  next
    assume c: "q = (open_tag @ m') @ us \<and> us @ ?w = close_tag @ b'"
    show False
    proof (cases us)
      case Nil
      with c have "?w = [] @ close_tag @ b'" by simp
      then have "closes ?w" unfolding closes_def by (metis empty_iff list.set(1))
      with m(3) show False by simp
    next
      case (Cons u us')
      from c have "q @ v = open_tag @ ((m' @ us) @ open_tag @ m) @ close_tag @ ?w"
        using m(1) by (metis append.assoc)
      moreover from c q have "newline \<notin> set (m' @ us)" by auto
      then have "newline \<notin> set ((m' @ us) @ open_tag @ m)" using m(2) by simp
      ultimately have "match_date (q @ v) \<noteq> None" using match_date_complete by blast
      with nm show False by simp
    qed
  qed
qed

lemma suffix_snoc_cases:
  "suffix q (p @ [c]) \<Longrightarrow> q \<noteq> [] \<Longrightarrow> \<exists>q0. q = q0 @ [c] \<and> suffix q0 p"
  by (cases q rule: rev_cases) (auto simp: suffix_def)

declare sub_date.simps [simp del]

lemma sub_date_no_match_step: "match_date (c # cs) = None \<Longrightarrow> sub_date (c # cs) = c # sub_date cs"
  by (simp add: sub_date.simps)

lemma sub_date_match_step: "match_date (c # cs) = Some n \<Longrightarrow> sub_date (c # cs) = sub_date (drop n (c # cs))"
  by (simp add: sub_date.simps)

lemma sub_date_prefix_clean:
  "newline \<notin> set p \<Longrightarrow> (\<And>r. suffix r p \<Longrightarrow> r \<noteq> [] \<Longrightarrow> match_date (r @ v) = None) \<Longrightarrow>
   suffix q p \<Longrightarrow> q \<noteq> [] \<Longrightarrow> match_date (q @ sub_date v) = None"
proof (induction v arbitrary: p q rule: sub_date.induct)
  case 1
  from "1.prems"(2) [OF "1.prems"(3,4)] show ?case by (simp add: sub_date.simps)
next
  case (2 c cs)
  have nq: "newline \<notin> set q" using "2.prems"(1,3) by (auto simp: suffix_def)
  show ?case
  proof (cases "match_date (c # cs)")
    case None
    note sd = sub_date_no_match_step [OF None]
    show ?thesis
    proof (cases "c = newline")
      case True
      have "match_date (q @ newline # cs) = None"
        using "2.prems"(2) [OF "2.prems"(3,4)] True by simp
      then have "match_date (q @ newline # sub_date cs) = None"
        using match_date_line [OF nq, of "sub_date cs" cs] by blast
      then show ?thesis unfolding sd by (simp add: True)
    next
      case False
      have a1: "newline \<notin> set (p @ [c])" using "2.prems"(1) False by auto
      have a2: "match_date (r @ cs) = None" if r: "suffix r (p @ [c])" "r \<noteq> []" for r
      proof -
        from suffix_snoc_cases [OF r] obtain r0 where r0: "r = r0 @ [c]" "suffix r0 p" by blast
        show ?thesis
        proof (cases "r0 = []")
          case True
          with r0 None show ?thesis by simp
        next
          case False
          from "2.prems"(2) [OF r0(2) False] show ?thesis by (simp add: r0(1))
        qed
      qed
      have a3: "suffix (q @ [c]) (p @ [c])" using "2.prems"(3) by simp
      have a4: "q @ [c] \<noteq> []" by simp
      have "match_date ((q @ [c]) @ sub_date cs) = None"
        by (rule "2.IH"(1) [OF None a1 a2 a3 a4])
      then show ?thesis unfolding sd by simp
    qed
  next
    case (Some n)
    note sd = sub_date_match_step [OF Some]
    have a2: "match_date (r @ drop n (c # cs)) = None" if r: "suffix r p" "r \<noteq> []" for r
    proof -
      from r(1) have "newline \<notin> set r" using "2.prems"(1) by (auto simp: suffix_def)
      moreover have "match_date (r @ c # cs) = None" by (rule "2.prems"(2) [OF r])
      ultimately show ?thesis by (rule no_match_after_drop [OF Some])
    qed
    have "match_date (q @ sub_date (drop n (c # cs))) = None"
      by (rule "2.IH"(2) [OF Some "2.prems"(1) a2 "2.prems"(3,4)])
    then show ?thesis unfolding sd .
  qed
qed

lemma match_date_newline: "match_date (newline # s) = None"
  by (simp add: match_date_def open_tag_def newline_def)

lemma sub_date_no_match: "match_date (drop i (sub_date doc)) = None"
proof (induction doc arbitrary: i rule: sub_date.induct)
  case 1
  show ?case by (simp add: sub_date.simps match_date_def open_tag_def)
next
  case (2 c cs)
  show ?case
  proof (cases "match_date (c # cs)")
    case None
    note sd = sub_date_no_match_step [OF None]
    show ?thesis
    proof (cases i)
      case 0
      show ?thesis
      proof (cases "c = newline")
        case True
        show ?thesis unfolding sd 0 by (simp add: True match_date_newline)
      next
        case False
        have p1: "newline \<notin> set [c]" using False by simp
        have p2: "match_date (r @ cs) = None" if "suffix r [c]" "r \<noteq> []" for r
        proof -
          from that have "r = [c]" by (auto simp: suffix_Cons)
          with None show ?thesis by simp
        qed
        have "match_date ([c] @ sub_date cs) = None"
          by (rule sub_date_prefix_clean [OF p1 p2]) simp_all
        then show ?thesis unfolding sd 0 by simp
      qed
    next
      case (Suc k)
      have "match_date (drop k (sub_date cs)) = None" by (rule "2.IH"(1) [OF None])
      then show ?thesis unfolding sd Suc by simp
    qed
  next
    case (Some n)
    note sd = sub_date_match_step [OF Some]
    have "match_date (drop i (sub_date (drop n (c # cs)))) = None" by (rule "2.IH"(2) [OF Some])
    then show ?thesis unfolding sd .
  qed
qed

text \<open>
  C2 (as amended). After the substitution of \<^verbatim>\<open>dump_xml\<close> no line of the document holds
  \<^verbatim>\<open><date>\<close> followed by \<^verbatim>\<open></date>\<close>, whatever stood between them: the text handed to the
  re-indenter is never of the form \<open>a @ <date> @ m @ </date> @ b\<close> with \<open>m\<close> free of line
  feeds, and the pattern matches nowhere in it.
\<close>

theorem sub_date_strips_single_line_dates:
  "(newline \<notin> set m \<longrightarrow> sub_date txt \<noteq> a @ ''<date>'' @ m @ ''</date>'' @ b) \<and>
   \<not> search_date (sub_date txt)"
proof (intro conjI impI)
  assume nm: "newline \<notin> set m"
  show "sub_date txt \<noteq> a @ ''<date>'' @ m @ ''</date>'' @ b"
  proof
    assume e: "sub_date txt = a @ ''<date>'' @ m @ ''</date>'' @ b"
    then have "drop (length a) (sub_date txt) = open_tag @ m @ close_tag @ b"
      by (simp add: open_tag_def close_tag_def)
    with nm have "match_date (drop (length a) (sub_date txt)) \<noteq> None"
      using match_date_complete by blast
    then show False by (simp add: sub_date_no_match)
  qed
next
  show "\<not> search_date (sub_date txt)"
    by (simp add: search_date_def list_ex_iff sub_date_no_match)
qed

text \<open>
  C2 as stated fails for a date element whose content has a line feed: \<^verbatim>\<open>.\<close> does not
  match it, the substitution leaves the document as it is, and with a re-indenter that
  returns its input the file written still holds the element.
\<close>

theorem date_with_line_break_counterexample:
  "sub_date ''<a><date>\<newline>2020</date></a>'' = ''<a><date>\<newline>2020</date></a>'' \<and>
   dump_xml sample_libs ''hosts'' ''<a><date>\<newline>2020</date></a>'' ''h'' False
     \<lparr>dirs = {}, files = Map.empty\<rparr>
   = (Inr (), \<lparr>dirs = {''hosts''}, files = [''hosts/h.xml'' \<mapsto> ''<a><date>\<newline>2020</date></a>'']\<rparr>)"
proof -
  have sd: "sub_date ''<a><date>\<newline>2020</date></a>'' = ''<a><date>\<newline>2020</date></a>''"
    by code_simp
  have rq: "replace_quot ''<a><date>\<newline>2020</date></a>'' = ''<a><date>\<newline>2020</date></a>''"
    by code_simp
  have sn: "sanitize_name ''h'' = ''h''" by code_simp
  have "dump_xml sample_libs ''hosts'' ''<a><date>\<newline>2020</date></a>'' ''h'' False
     \<lparr>dirs = {}, files = Map.empty\<rparr>
   = (Inr (), \<lparr>dirs = {''hosts''}, files = [''hosts/h.xml'' \<mapsto> ''<a><date>\<newline>2020</date></a>'']\<rparr>)"
    unfolding dump_xml_def sd sn
    by (simp add: sample_libs_def rq write_file_def file_path_def ensure_folder_def
        path_exists_def makedirs_def del: replace_quot.simps)
  with sd show ?thesis by simp
qed

text \<open>An export with its time stamp on one line.\<close>

theorem sub_date_strips_single_line_dates_witness:
  "sub_date ''<a><date>2020-01-01T00:00:00Z</date><b/></a>'' = ''<a><b/></a>'' \<and>
   sub_date ''<a><date>2020-01-01T00:00:00Z</date><b/></a>'' \<noteq>
     ''<a>'' @ ''<date>'' @ ''2020-01-01T00:00:00Z'' @ ''</date>'' @ ''<b/></a>''"
proof -
  have n: "newline \<notin> set ''2020-01-01T00:00:00Z''" by (simp add: newline_def)
  have e: "sub_date ''<a><date>2020-01-01T00:00:00Z</date><b/></a>'' = ''<a><b/></a>''"
    by code_simp
  from sub_date_strips_single_line_dates [THEN conjunct1, THEN mp, OF n] e
  show ?thesis by blast
qed

end
